theory Spec2Isabelle
  imports Main "HOL-Library.Multiset" "HOL-Library.AList"
begin

section \<open>Strings of the host language\<close>

text \<open>
  Strings are lists of 8-bit characters, read as the code units below 256. The
  functions of this section are the methods of JavaScript strings that the analyzer
  calls, under their own names.
\<close>

definition charCode :: "char \<Rightarrow> nat" where
  "charCode c = of_char c"

text \<open>\<^verbatim>\<open>toLowerCase\<close>: the letters A-Z and the Latin-1 capitals move up by 32.\<close>

definition lowerChar :: "char \<Rightarrow> char" where
  "lowerChar c =
     (let n = charCode c in
      if (65 \<le> n \<and> n \<le> 90) \<or> (192 \<le> n \<and> n \<le> 222 \<and> n \<noteq> 215)
      then char_of (n + 32) else c)"

definition toLowerCase :: "string \<Rightarrow> string" where
  "toLowerCase s = map lowerChar s"

text \<open>White space as \<^verbatim>\<open>trim\<close> and the class \<^verbatim>\<open>\s\<close> see it: tab, line feed,
  vertical tab, form feed, carriage return, space and the no-break space.\<close>

definition isSpace :: "char \<Rightarrow> bool" where
  "isSpace c = (charCode c \<in> {9, 10, 11, 12, 13, 32, 160})"

text \<open>Line terminators, which \<^verbatim>\<open>.\<close> does not match.\<close>

definition isLineTerminator :: "char \<Rightarrow> bool" where
  "isLineTerminator c = (charCode c = 10 \<or> charCode c = 13)"

text \<open>The class \<^verbatim>\<open>\w\<close>: ASCII letters, digits and the underscore.\<close>

definition isWordChar :: "char \<Rightarrow> bool" where
  "isWordChar c =
     (let n = charCode c in
      (48 \<le> n \<and> n \<le> 57) \<or> (65 \<le> n \<and> n \<le> 90) \<or> n = 95 \<or> (97 \<le> n \<and> n \<le> 122))"

definition trim :: "string \<Rightarrow> string" where
  "trim s = rev (dropWhile isSpace (rev (dropWhile isSpace s)))"

fun startsWith :: "string \<Rightarrow> string \<Rightarrow> bool" where
  "startsWith s [] = True"
| "startsWith [] (k # ks) = False"
| "startsWith (c # cs) (k # ks) = (c = k \<and> startsWith cs ks)"

definition endsWith :: "string \<Rightarrow> string \<Rightarrow> bool" where
  "endsWith s k = startsWith (rev s) (rev k)"

fun includesStr :: "string \<Rightarrow> string \<Rightarrow> bool" where
  "includesStr [] k = (k = [])"
| "includesStr (c # cs) k = (startsWith (c # cs) k \<or> includesStr cs k)"

text \<open>\<^verbatim>\<open>s.split(c)\<close> for a one-character separator: never the empty list.\<close>

fun split :: "char \<Rightarrow> string \<Rightarrow> string list" where
  "split sep [] = [[]]"
| "split sep (c # cs) =
     (if c = sep then [] # split sep cs
      else (case split sep cs of [] \<Rightarrow> [[c]] | h # t \<Rightarrow> (c # h) # t))"

text \<open>\<^verbatim>\<open>s.replace(/c/g, r)\<close> for a one-character pattern.\<close>

definition replaceAllChar :: "char \<Rightarrow> string \<Rightarrow> string \<Rightarrow> string" where
  "replaceAllChar c r s = concat (map (\<lambda>x. if x = c then r else [x]) s)"

section \<open>Regular expressions\<close>

text \<open>
  The regular expressions of the analyzer are written as terms of \<open>rx\<close> and run by a
  backtracking matcher with the priorities of the host language: the left alternative
  first, the longest repetition first, the leftmost start position first. A repetition
  gives up an iteration that consumes nothing.
\<close>

datatype atom =
    Lit char
  | LitI char
  | AnyChar
  | Space
  | WordCh
  | OneOf "atom list"
  | NoneOf "atom list"

fun atomMatches :: "atom \<Rightarrow> char \<Rightarrow> bool" where
  "atomMatches (Lit c) x = (x = c)"
| "atomMatches (LitI c) x = (lowerChar x = lowerChar c)"
| "atomMatches AnyChar x = (\<not> isLineTerminator x)"
| "atomMatches Space x = isSpace x"
| "atomMatches WordCh x = isWordChar x"
| "atomMatches (OneOf as) x = (\<exists>a \<in> set as. atomMatches a x)"
| "atomMatches (NoneOf as) x = (\<not> (\<exists>a \<in> set as. atomMatches a x))"

datatype rx =
    Atom atom
  | Eps
  | Eos
  | Seq rx rx
  | Alt rx rx
  | Star rx
  | Grp nat rx

type_synonym caps = "(nat \<times> string) list"

function rxm :: "rx \<Rightarrow> string \<Rightarrow> caps \<Rightarrow> (string \<Rightarrow> caps \<Rightarrow> 'a option) \<Rightarrow> 'a option" where
  "rxm (Atom a) s c k =
     (case s of [] \<Rightarrow> None | x # xs \<Rightarrow> if atomMatches a x then k xs c else None)"
| "rxm Eps s c k = k s c"
| "rxm Eos s c k = (if s = [] then k s c else None)"
| "rxm (Seq a b) s c k = rxm a s c (\<lambda>s' c'. rxm b s' c' k)"
| "rxm (Alt a b) s c k = (case rxm a s c k of Some r \<Rightarrow> Some r | None \<Rightarrow> rxm b s c k)"
| "rxm (Star a) s c k =
     (case rxm a s c (\<lambda>s' c'. if length s' < length s then rxm (Star a) s' c' k else None) of
        Some r \<Rightarrow> Some r
      | None \<Rightarrow> k s c)"
| "rxm (Grp i a) s c k =
     rxm a s c (\<lambda>s' c'. k s' ((i, take (length s - length s') s) # c'))"
  by pat_completeness auto
termination
  by (relation "measures [\<lambda>(r, s, c, k). size r, \<lambda>(r, s, c, k). length s]") auto

text \<open>Derived forms: \<^verbatim>\<open>r+\<close>, \<^verbatim>\<open>r?\<close>, a literal word, and a literal word under the
  flag \<^verbatim>\<open>i\<close>.\<close>

definition Plus :: "rx \<Rightarrow> rx" where
  "Plus r = Seq r (Star r)"

definition Opt :: "rx \<Rightarrow> rx" where
  "Opt r = Alt r Eps"

fun word :: "string \<Rightarrow> rx" where
  "word [] = Eps"
| "word [c] = Atom (Lit c)"
| "word (c # cs) = Seq (Atom (Lit c)) (word cs)"

fun wordI :: "string \<Rightarrow> rx" where
  "wordI [] = Eps"
| "wordI [c] = Atom (LitI c)"
| "wordI (c # cs) = Seq (Atom (LitI c)) (wordI cs)"

fun seqs :: "rx list \<Rightarrow> rx" where
  "seqs [] = Eps"
| "seqs [r] = r"
| "seqs (r # rs) = Seq r (seqs rs)"

text \<open>A match: where it starts, how many characters it covers, and its groups.\<close>

record rmatch =
  mstart :: nat
  mlen :: nat
  mcaps :: caps

definition group :: "rmatch \<Rightarrow> nat \<Rightarrow> string option" where
  "group m i = map_of (mcaps m) i"

definition rxAt :: "rx \<Rightarrow> string \<Rightarrow> nat \<Rightarrow> rmatch option" where
  "rxAt r s i =
     rxm r (drop i s) []
       (\<lambda>s' c. Some \<lparr>mstart = i, mlen = length (drop i s) - length s', mcaps = c\<rparr>)"

fun firstSome :: "('a \<Rightarrow> 'b option) \<Rightarrow> 'a list \<Rightarrow> 'b option" where
  "firstSome f [] = None"
| "firstSome f (x # xs) = (case f x of Some y \<Rightarrow> Some y | None \<Rightarrow> firstSome f xs)"

text \<open>\<^verbatim>\<open>exec\<close> from position \<open>i\<close>; \<^verbatim>\<open>s.match(r)\<close> without the flag \<^verbatim>\<open>g\<close> is
  \<open>rxExec r s 0\<close>.\<close>

definition rxExec :: "rx \<Rightarrow> string \<Rightarrow> nat \<Rightarrow> rmatch option" where
  "rxExec r s i = firstSome (rxAt r s) [i ..< Suc (length s)]"

text \<open>
  The loop \<^verbatim>\<open>while ((match = r.exec(content)) !== null)\<close> under the flag \<^verbatim>\<open>g\<close>:
  the matches from left to right, each search starting where the last match ended. A
  match that covers nothing would leave \<^verbatim>\<open>lastIndex\<close> in place and the loop of the
  source would not end; the scan stops there. The two other tests of the guard never
  fail (a match found from \<open>i\<close> starts at or after \<open>i\<close> and ends inside the string); they
  make the recursion visibly terminate. For the regular expressions of the analyzer
  the guard is never taken: \<open>rxExecAll_loop\<close> and \<open>analyzer_regexes_consume\<close> below.
\<close>

function rxExecAll :: "rx \<Rightarrow> string \<Rightarrow> nat \<Rightarrow> rmatch list" where
  "rxExecAll r s i =
     (case rxExec r s i of
        None \<Rightarrow> []
      | Some m \<Rightarrow>
          if mlen m = 0 \<or> mstart m < i \<or> length s < mstart m + mlen m then []
          else m # rxExecAll r s (mstart m + mlen m))"
  by pat_completeness auto
termination
  by (relation "measure (\<lambda>(r, s, i). length s - i)") auto

text \<open>\<^verbatim>\<open>s.replace(r, t)\<close> without the flag \<^verbatim>\<open>g\<close>: the first match only.\<close>

definition replaceFirst :: "rx \<Rightarrow> string \<Rightarrow> string \<Rightarrow> string" where
  "replaceFirst r t s =
     (case rxExec r s 0 of
        None \<Rightarrow> s
      | Some m \<Rightarrow> take (mstart m) s @ t @ drop (mstart m + mlen m) s)"

section \<open>Paths\<close>

text \<open>
  The functions of the module \<^verbatim>\<open>path\<close> on a POSIX host, where the separator is the
  slash. \<open>lastSegment\<close> is the part of a path that \<^verbatim>\<open>basename\<close> and \<^verbatim>\<open>extname\<close> look
  at: trailing slashes are dropped, and what follows the last remaining slash is kept.
\<close>

definition stripTrailingSlashes :: "string \<Rightarrow> string" where
  "stripTrailingSlashes p = rev (dropWhile (\<lambda>c. c = CHR ''/'') (rev p))"

definition lastSegment :: "string \<Rightarrow> string" where
  "lastSegment p = rev (takeWhile (\<lambda>c. c \<noteq> CHR ''/'') (rev (stripTrailingSlashes p)))"

text \<open>\<^verbatim>\<open>path.basename(p)\<close>.\<close>

definition basename :: "string \<Rightarrow> string" where
  "basename p = lastSegment p"

text \<open>\<^verbatim>\<open>path.extname(p)\<close>: from the last dot of the last segment on; empty when there
  is no dot, when the last dot opens the segment, and when the segment is \<^verbatim>\<open>..\<close>.\<close>

definition extname :: "string \<Rightarrow> string" where
  "extname p =
     (let seg = lastSegment p in
      if CHR ''.'' \<notin> set seg then []
      else
        let ext = CHR ''.'' # rev (takeWhile (\<lambda>c. c \<noteq> CHR ''.'') (rev seg));
            pre = take (length seg - length ext) seg
        in if pre = [] \<or> seg = ''..'' then [] else ext)"

text \<open>\<^verbatim>\<open>path.basename(p, ext)\<close>. The suffix is compared with the end of the last
  segment; a segment equal to the suffix is kept whole. When the segment ends before
  the suffix has been compared in full, the result runs to the end of the path.\<close>

definition basenameExt :: "string \<Rightarrow> string \<Rightarrow> string" where
  "basenameExt p ext =
     (if ext \<noteq> [] \<and> length ext \<le> length p then
        if ext = p then []
        else
          let seg = lastSegment p in
          if length seg < length ext \<and> endsWith ext seg
          then drop (length (stripTrailingSlashes p) - length seg) p
          else if endsWith seg ext \<and> seg \<noteq> ext
          then take (length seg - length ext) seg
          else seg
      else lastSegment p)"

text \<open>\<^verbatim>\<open>path.dirname(p)\<close>. The first character is never looked at as a separator of
  segments, only as the root.\<close>

definition dirname :: "string \<Rightarrow> string" where
  "dirname p =
     (if p = [] then ''.''
      else
        let r = stripTrailingSlashes (tl p) in
        if CHR ''/'' \<notin> set r then (if hd p = CHR ''/'' then ''/'' else ''.'')
        else
          let e = length r - length (takeWhile (\<lambda>c. c \<noteq> CHR ''/'') (rev r)) in
          if hd p = CHR ''/'' \<and> e = 1 then ''//'' else take e p)"

text \<open>The segments of a path, and \<^verbatim>\<open>normalizeString\<close>: empty segments and \<^verbatim>\<open>.\<close> go,
  \<^verbatim>\<open>..\<close> removes the segment before it, or stays when there is none and the path is
  relative.\<close>

fun normalizeSegments :: "bool \<Rightarrow> string list \<Rightarrow> string list \<Rightarrow> string list" where
  "normalizeSegments allowAboveRoot acc [] = rev acc"
| "normalizeSegments allowAboveRoot acc (seg # segs) =
     (if seg = [] \<or> seg = ''.'' then normalizeSegments allowAboveRoot acc segs
      else if seg = ''..'' then
        (case acc of
           [] \<Rightarrow> normalizeSegments allowAboveRoot (if allowAboveRoot then [''..''] else []) segs
         | a # as \<Rightarrow>
             if a = ''..'' then
               normalizeSegments allowAboveRoot (if allowAboveRoot then ''..'' # acc else acc) segs
             else normalizeSegments allowAboveRoot as segs)
      else normalizeSegments allowAboveRoot (seg # acc) segs)"

fun joinWith :: "string \<Rightarrow> string list \<Rightarrow> string" where
  "joinWith sep [] = []"
| "joinWith sep [x] = x"
| "joinWith sep (x # xs) = x @ sep @ joinWith sep xs"

definition normalizeString :: "string \<Rightarrow> bool \<Rightarrow> string" where
  "normalizeString p allowAboveRoot =
     joinWith ''/'' (normalizeSegments allowAboveRoot [] (split (CHR ''/'') p))"

text \<open>\<^verbatim>\<open>path.normalize(p)\<close>.\<close>

definition normalizePath :: "string \<Rightarrow> string" where
  "normalizePath p =
     (if p = [] then ''.''
      else
        let isAbsolute = (hd p = CHR ''/'');
            trailingSeparator = (last p = CHR ''/'');
            q = normalizeString p (\<not> isAbsolute)
        in if q = [] then (if isAbsolute then ''/'' else if trailingSeparator then ''./'' else ''.'')
           else (if isAbsolute then ''/'' else []) @ q @ (if trailingSeparator then ''/'' else []))"

text \<open>\<^verbatim>\<open>path.join(...args)\<close>.\<close>

definition pathJoin :: "string list \<Rightarrow> string" where
  "pathJoin args =
     (let parts = filter (\<lambda>a. a \<noteq> []) args in
      if parts = [] then ''.'' else normalizePath (joinWith ''/'' parts))"

text \<open>\<^verbatim>\<open>path.resolve(...args)\<close>, with the working directory of the process as a
  parameter: the arguments are taken from the right until one is absolute.\<close>

fun resolveParts :: "string list \<Rightarrow> string \<Rightarrow> string" where
  "resolveParts [] acc = acc"
| "resolveParts (a # as) acc =
     (if a = [] then resolveParts as acc
      else if hd a = CHR ''/'' then a @ ''/'' @ acc
      else resolveParts as (a @ ''/'' @ acc))"

definition pathResolve :: "string \<Rightarrow> string list \<Rightarrow> string" where
  "pathResolve cwd args =
     (let joined = resolveParts (rev (cwd # args)) [];
          resolvedAbsolute = (joined \<noteq> [] \<and> hd joined = CHR ''/'');
          q = normalizeString joined (\<not> resolvedAbsolute)
      in if resolvedAbsolute then ''/'' @ q else if q \<noteq> [] then q else ''.'')"

section \<open>The service grouper\<close>

text \<open>The patterns of \<^verbatim>\<open>extractServiceName\<close>, \<^verbatim>\<open>/(.+)Controller$/i\<close> and its six
  siblings, in the order of the source.\<close>

definition suffixPattern :: "string \<Rightarrow> rx" where
  "suffixPattern w = seqs [Grp 1 (Plus (Atom AnyChar)), wordI w, Eos]"

definition patterns :: "rx list" where
  "patterns =
     [suffixPattern ''Controller'',
      suffixPattern ''Service'',
      suffixPattern ''Handler'',
      suffixPattern ''Repository'',
      suffixPattern ''Manager'',
      suffixPattern ''Provider'',
      suffixPattern ''Component'']"

text \<open>\<^verbatim>\<open>fileName.match(pattern)\<close> followed by \<^verbatim>\<open>match[1]\<close>.\<close>

definition matchGroup1 :: "rx \<Rightarrow> string \<Rightarrow> string option" where
  "matchGroup1 r s = (case rxExec r s 0 of None \<Rightarrow> None | Some m \<Rightarrow> group m 1)"

definition extractServiceName :: "string \<Rightarrow> string" where
  "extractServiceName filePath =
     (let fileName = basenameExt filePath (extname filePath);
          dirName = basename (dirname filePath)
      in case firstSome (\<lambda>pattern. matchGroup1 pattern fileName) patterns of
           Some name \<Rightarrow> name
         | None \<Rightarrow> if dirName = ''.'' then ''Root'' else dirName)"

definition categorizeFile :: "string \<Rightarrow> string" where
  "categorizeFile filePath =
     (let fileName = toLowerCase (basename filePath);
          dirName = toLowerCase (basename (dirname filePath))
      in
      if includesStr fileName ''controller'' \<or> includesStr fileName ''handler''
           \<or> includesStr fileName ''router'' then ''controller''
      else if includesStr fileName ''service'' \<or> includesStr fileName ''manager''
           \<or> includesStr fileName ''provider'' then ''service''
      else if includesStr fileName ''model'' \<or> includesStr fileName ''entity''
           \<or> includesStr fileName ''dto'' \<or> includesStr fileName ''domain'' then ''model''
      else if includesStr fileName ''repository'' \<or> includesStr fileName ''dao''
           \<or> includesStr fileName ''data'' then ''repository''
      else if includesStr fileName ''config'' \<or> includesStr fileName ''setting''
           \<or> includesStr fileName ''property'' then ''config''
      else if includesStr fileName ''util'' \<or> includesStr fileName ''helper''
           \<or> includesStr fileName ''tool'' then ''utility''
      else if includesStr fileName ''test'' \<or> includesStr fileName ''spec'' then ''test''
      else if dirName \<in> set [''controller'', ''controllers'', ''handler'', ''handlers'']
        then ''controller''
      else if dirName \<in> set [''service'', ''services'', ''business'', ''logic'']
        then ''service''
      else if dirName \<in> set [''model'', ''models'', ''entity'', ''entities'', ''domain'', ''dto'']
        then ''model''
      else if dirName \<in> set [''repository'', ''repositories'', ''dao'', ''data'']
        then ''repository''
      else if dirName \<in> set [''config'', ''configuration'', ''settings''] then ''config''
      else if dirName \<in> set [''util'', ''utils'', ''utility'', ''utilities'', ''helper'', ''helpers'']
        then ''utility''
      else if dirName \<in> set [''test'', ''tests'', ''spec'', ''specs''] then ''test''
      else ''unknown'')"

section \<open>The data model\<close>

text \<open>The structural facts of \<^verbatim>\<open>types/index.ts\<close>. The analyzer reads the language tag
  of a module, its endpoints and the names of its classes, and passes the rest on. The
  fields of type \<^verbatim>\<open>any\<close> (schemas and examples) are left out.\<close>

datatype language = Go | Java | CSharp

datatype httpMethod = GET | POST | PUT | DELETE | PATCH

datatype paramIn = InQuery | InPath | InHeader | InBody

record Parameter =
  paramName :: string
  paramType :: string
  paramWhere :: paramIn
  required :: bool
  paramDescription :: string

record Response =
  statusCode :: nat
  responseDescription :: string

record ApiEndpoint =
  endpointMethod :: httpMethod
  path :: string
  endpointDescription :: string
  parameters :: "Parameter list"
  responses :: "Response list"
  tags :: "string list"
  fileName :: string
  endpointLine :: nat

record FunctionInfo =
  functionName :: string
  functionDescription :: string
  functionParameters :: "Parameter list"
  returnType :: string
  functionAnnotations :: "string list"
  functionLine :: nat

record PropertyInfo =
  propertyName :: string
  propertyType :: string
  propertyDescription :: string
  propertyAnnotations :: "string list"

record ClassInfo =
  name :: string
  description :: string
  methods :: "FunctionInfo list"
  properties :: "PropertyInfo list"
  annotations :: "string list"
  lineNumber :: nat

record CodeModule =
  filePath :: string
  language :: language
  endpoints :: "ApiEndpoint list"
  classes :: "ClassInfo list"
  functionInfos :: "FunctionInfo list"
  lastModified :: nat

datatype relationType = Import | Extends | Implements | Calls | References | Config

record FileRelationship =
  sourceFile :: string
  targetFile :: string
  relationType :: relationType
  details :: string

record ServiceContext =
  serviceName :: string
  rootPath :: string
  controllers :: "CodeModule list"
  services :: "CodeModule list"
  models :: "CodeModule list"
  repositories :: "CodeModule list"
  configurations :: "CodeModule list"
  utilities :: "CodeModule list"
  tests :: "CodeModule list"
  relationships :: "FileRelationship list"
  apiEndpoints :: "ApiEndpoint list"
  businessLogic :: "ClassInfo list"
  dataModels :: "ClassInfo list"

datatype referenceType = RefClass | RefFunction | RefInterface | RefType | RefConstant

record CrossFileReference =
  fromFile :: string
  fromLocation :: "nat \<times> nat"
  toFile :: string
  toSymbol :: string
  referenceType :: referenceType

text \<open>The fields of the class \<^verbatim>\<open>ContextAnalyzer\<close>. \<^verbatim>\<open>codeModules\<close> is a \<^verbatim>\<open>Map\<close>: an
  association list in insertion order, written with \<open>AList.update\<close>, which replaces the
  value of a key in place and adds a new key at the end.\<close>

record ContextAnalyzer =
  codeModules :: "(string \<times> CodeModule) list"
  fileRelationships :: "FileRelationship list"
  crossReferences :: "CrossFileReference list"

definition newContextAnalyzer :: ContextAnalyzer where
  "newContextAnalyzer = \<lparr>codeModules = [], fileRelationships = [], crossReferences = []\<rparr>"

section \<open>The file system and the fact provider\<close>

text \<open>What the analyzer asks of its host: the calls of \<^verbatim>\<open>fs-extra\<close> (the result
  \<open>None\<close> is a rejected promise; \<^verbatim>\<open>pathExists\<close> never rejects), the working directory,
  and the three extractors that each language parser implements (\<open>None\<close> when the
  extractor throws).\<close>

record Stats =
  isDirectory :: bool
  isFile :: bool
  mtime :: nat

record env =
  readdir :: "string \<Rightarrow> string list option"
  stat :: "string \<Rightarrow> Stats option"
  readFile :: "string \<Rightarrow> string option"
  pathExists :: "string \<Rightarrow> bool"
  cwd :: string
  extractApiEndpoints :: "language \<Rightarrow> string \<Rightarrow> string \<Rightarrow> ApiEndpoint list option"
  extractClasses :: "language \<Rightarrow> string \<Rightarrow> string \<Rightarrow> ClassInfo list option"
  extractFunctions :: "language \<Rightarrow> string \<Rightarrow> string \<Rightarrow> FunctionInfo list option"

datatype error = ReaddirError string | StatError string | ReadFileError string

text \<open>\<^verbatim>\<open>ParserFactory.getParserByFileExtension\<close>.\<close>

definition languageOfExtension :: "string \<Rightarrow> language option" where
  "languageOfExtension fp =
     (let extension = toLowerCase (extname fp) in
      if extension = ''.go'' then Some Go
      else if extension = ''.java'' then Some Java
      else if extension = ''.cs'' then Some CSharp
      else None)"

text \<open>\<^verbatim>\<open>ParserFactory.parseFile\<close> over \<^verbatim>\<open>BaseParser.parseFile\<close>: every failure inside
  is caught there and becomes \<^verbatim>\<open>null\<close>.\<close>

definition parseFile :: "env \<Rightarrow> string \<Rightarrow> CodeModule option" where
  "parseFile env fp =
     (case languageOfExtension fp of
        None \<Rightarrow> None
      | Some lang \<Rightarrow>
          (case readFile env fp of
             None \<Rightarrow> None
           | Some content \<Rightarrow>
               (case stat env fp of
                  None \<Rightarrow> None
                | Some stats \<Rightarrow>
                    (case extractApiEndpoints env lang content fp of
                       None \<Rightarrow> None
                     | Some eps \<Rightarrow>
                         (case extractClasses env lang content fp of
                            None \<Rightarrow> None
                          | Some cls \<Rightarrow>
                              (case extractFunctions env lang content fp of
                                 None \<Rightarrow> None
                               | Some fns \<Rightarrow>
                                   Some \<lparr>filePath = fp, language = lang, endpoints = eps,
                                         classes = cls, functionInfos = fns,
                                         lastModified = mtime stats\<rparr>))))))"

definition getSupportedExtensions :: "string list" where
  "getSupportedExtensions = [''.go'', ''.java'', ''.cs'']"

definition shouldSkipDirectory :: "string \<Rightarrow> bool" where
  "shouldSkipDirectory dirName =
     (dirName \<in> set [''node_modules'', ''.git'', ''dist'', ''build'', ''target'', ''bin'', ''obj'',
                     ''.idea'', ''.vscode'', ''coverage'', ''logs'', ''tmp'', ''temp'']
      \<or> startsWith dirName ''.'')"

text \<open>The closure \<^verbatim>\<open>traverse\<close> of \<^verbatim>\<open>findAllSupportedFiles\<close>, with the array \<^verbatim>\<open>files\<close>
  passed along. The recursion follows the directory tree, which the host decides, so
  it carries fuel: the number of directory levels it may still enter. \<open>None\<close> is
  the fuel running out.\<close>

fun traverse :: "env \<Rightarrow> nat \<Rightarrow> string \<Rightarrow> string list \<Rightarrow> (error + string list) option"
  and traverseItems ::
    "env \<Rightarrow> nat \<Rightarrow> string \<Rightarrow> string list \<Rightarrow> string list \<Rightarrow> (error + string list) option"
where
  "traverse env 0 dir files = None"
| "traverse env (Suc n) dir files =
     (case readdir env dir of
        None \<Rightarrow> Some (Inl (ReaddirError dir))
      | Some items \<Rightarrow> traverseItems env n dir items files)"
| "traverseItems env n dir [] files = Some (Inr files)"
| "traverseItems env n dir (item # items) files =
     (let itemPath = pathJoin [dir, item] in
      case stat env itemPath of
        None \<Rightarrow> Some (Inl (StatError itemPath))
      | Some stats \<Rightarrow>
          if isDirectory stats then
            (if \<not> shouldSkipDirectory item then
               (case traverse env n itemPath files of
                  None \<Rightarrow> None
                | Some (Inl e) \<Rightarrow> Some (Inl e)
                | Some (Inr files') \<Rightarrow> traverseItems env n dir items files')
             else traverseItems env n dir items files)
          else if isFile stats then
            (if extname item \<in> set getSupportedExtensions
             then traverseItems env n dir items (files @ [itemPath])
             else traverseItems env n dir items files)
          else traverseItems env n dir items files)"

definition findAllSupportedFiles :: "env \<Rightarrow> nat \<Rightarrow> string \<Rightarrow> (error + string list) option" where
  "findAllSupportedFiles env fuel directoryPath = traverse env fuel directoryPath []"

text \<open>The loop of \<^verbatim>\<open>parseAllFiles\<close> over the files found, and \<^verbatim>\<open>parseAllFiles\<close>.\<close>

fun parseEach :: "env \<Rightarrow> string list \<Rightarrow> ContextAnalyzer \<Rightarrow> ContextAnalyzer" where
  "parseEach env [] st = st"
| "parseEach env (fp # fps) st =
     (case parseFile env fp of
        Some module \<Rightarrow>
          parseEach env fps (st\<lparr>codeModules := AList.update fp module (codeModules st)\<rparr>)
      | None \<Rightarrow> parseEach env fps st)"

definition parseAllFiles ::
  "env \<Rightarrow> nat \<Rightarrow> ContextAnalyzer \<Rightarrow> string \<Rightarrow> (error + ContextAnalyzer) option" where
  "parseAllFiles env fuel st directoryPath =
     (case findAllSupportedFiles env fuel directoryPath of
        None \<Rightarrow> None
      | Some (Inl e) \<Rightarrow> Some (Inl e)
      | Some (Inr allFiles) \<Rightarrow> Some (Inr (parseEach env allFiles st)))"

section \<open>The relationship extractor\<close>

text \<open>A loop over a list whose body may reject: the first rejection ends it.\<close>

fun forEach :: "('s \<Rightarrow> 'a \<Rightarrow> error + 's) \<Rightarrow> 'a list \<Rightarrow> 's \<Rightarrow> error + 's" where
  "forEach body [] st = Inr st"
| "forEach body (x # xs) st =
     (case body st x of Inl e \<Rightarrow> Inl e | Inr st' \<Rightarrow> forEach body xs st')"

text \<open>\<^verbatim>\<open>findClassDefinition\<close>: the first file of the module table, in insertion order,
  with a class of that name.\<close>

definition findClassDefinition :: "ContextAnalyzer \<Rightarrow> string \<Rightarrow> string \<Rightarrow> string option" where
  "findClassDefinition st basePath className =
     map_option fst
       (find (\<lambda>(fp, module). \<exists>cls \<in> set (classes module). name cls = className)
          (codeModules st))"

text \<open>Every site that stores an edge has the same shape,
  \<^verbatim>\<open>if (target) { this.fileRelationships.push({sourceFile: filePath, targetFile: target, ...}) }\<close>,
  where the test is the truthiness of a value of type \<^verbatim>\<open>string | null\<close>.\<close>

definition pushIfResolved ::
  "ContextAnalyzer \<Rightarrow> string \<Rightarrow> string option \<Rightarrow> relationType \<Rightarrow> string \<Rightarrow> ContextAnalyzer" where
  "pushIfResolved st fp resolved rtype det =
     (case resolved of
        None \<Rightarrow> st
      | Some target \<Rightarrow>
          if target = [] then st
          else st\<lparr>fileRelationships := fileRelationships st @
                  [\<lparr>sourceFile = fp, targetFile = target, relationType = rtype, details = det\<rparr>]\<rparr>)"

subsection \<open>Project roots and import resolution\<close>

definition possibleMarkers :: "string list" where
  "possibleMarkers =
     [''package.json'', ''pom.xml'', ''build.gradle'', ''go.mod'', ''*.csproj'', ''*.sln'', ''.git'']"

definition markerPresent :: "env \<Rightarrow> string \<Rightarrow> string \<Rightarrow> error + bool" where
  "markerPresent env currentPath marker =
     (if marker = ''.git'' then Inr (pathExists env (pathJoin [currentPath, marker]))
      else if includesStr marker ''*'' then
        (case readdir env currentPath of
           None \<Rightarrow> Inl (ReaddirError currentPath)
         | Some files \<Rightarrow>
             let pattern = remove1 (CHR ''*'') marker
             in Inr (\<exists>f \<in> set files. endsWith f pattern))
      else Inr (pathExists env (pathJoin [currentPath, marker])))"

fun anyMarker :: "env \<Rightarrow> string \<Rightarrow> string list \<Rightarrow> error + bool" where
  "anyMarker env currentPath [] = Inr False"
| "anyMarker env currentPath (marker # markers) =
     (case markerPresent env currentPath marker of
        Inl e \<Rightarrow> Inl e
      | Inr True \<Rightarrow> Inr True
      | Inr False \<Rightarrow> anyMarker env currentPath markers)"

definition pathRank :: "string \<Rightarrow> nat" where
  "pathRank p = (if p = ''.'' \<or> p = ''/'' then 0 else Suc (length p))"

lemma length_stripTrailingSlashes: "length (stripTrailingSlashes p) \<le> length p"
  unfolding stripTrailingSlashes_def
  using length_dropWhile_le [of "\<lambda>c. c = CHR ''/''" "rev p"] by simp

lemma length_takeWhile_less: "\<exists>x \<in> set xs. \<not> P x \<Longrightarrow> length (takeWhile P xs) < length xs"
  by (induction xs) auto

lemma dirname_rank: "p \<noteq> dirname p \<Longrightarrow> pathRank (dirname p) < pathRank p"
proof (cases "p = []")
  case True
  then show ?thesis by (simp add: dirname_def pathRank_def)
next
  case False
  assume ne: "p \<noteq> dirname p"
  define r where "r = stripTrailingSlashes (tl p)"
  define e where "e = length r - length (takeWhile (\<lambda>c. c \<noteq> CHR ''/'') (rev r))"
  have lr: "length r < length p"
    using length_stripTrailingSlashes [of "tl p"] False unfolding r_def by (cases p) auto
  show ?thesis
  proof (cases "CHR ''/'' \<in> set r")
    case False
    with \<open>p \<noteq> []\<close> ne show ?thesis
      by (auto simp: dirname_def pathRank_def r_def Let_def split: if_splits)
  next
    case True
    have rne: "r \<noteq> []" using True by auto
    have lastr: "last r \<noteq> CHR ''/''"
    proof -
      have "hd (dropWhile (\<lambda>c. c = CHR ''/'') (rev (tl p))) \<noteq> CHR ''/''"
        using rne hd_dropWhile [of "\<lambda>c. c = CHR ''/''" "rev (tl p)"]
        by (simp add: r_def stripTrailingSlashes_def)
      then show ?thesis
        using rne by (simp add: r_def stripTrailingSlashes_def last_rev)
    qed
    have tw: "0 < length (takeWhile (\<lambda>c. c \<noteq> CHR ''/'') (rev r))"
      using rne lastr by (cases "rev r") (auto simp: last_rev hd_rev)
    have e_lt: "e < length r" using tw rne by (simp add: e_def)
    have e_pos: "0 < e"
      using True length_takeWhile_less [of "rev r" "\<lambda>c. c \<noteq> CHR ''/''"]
      by (simp add: e_def)
    have two: "2 \<le> length r" using e_lt e_pos by simp
    have d: "dirname p = (if hd p = CHR ''/'' \<and> e = 1 then ''//'' else take e p)"
      using \<open>p \<noteq> []\<close> True by (simp add: dirname_def r_def e_def Let_def)
    show ?thesis
    proof (cases "hd p = CHR ''/'' \<and> e = 1")
      case True
      with d lr two show ?thesis by (auto simp: pathRank_def)
    next
      case False
      with d have "dirname p = take e p" by auto
      moreover have "length (take e p) = e" using e_lt lr by simp
      ultimately show ?thesis using e_lt lr e_pos
        by (auto simp: pathRank_def)
    qed
  qed
qed

text \<open>The loop of \<^verbatim>\<open>findProjectRoot\<close>, from the directory of the file upwards; the
  directory where \<^verbatim>\<open>dirname\<close> stops moving is not looked at.\<close>

function findProjectRootFrom :: "env \<Rightarrow> string \<Rightarrow> error + string option" where
  "findProjectRootFrom env currentPath =
     (if currentPath = dirname currentPath then Inr None
      else
        (case anyMarker env currentPath possibleMarkers of
           Inl e \<Rightarrow> Inl e
         | Inr True \<Rightarrow> Inr (Some currentPath)
         | Inr False \<Rightarrow> findProjectRootFrom env (dirname currentPath)))"
  by pat_completeness auto
termination
  by (relation "measure (\<lambda>(env, p). pathRank p)") (auto simp: dirname_rank)

definition findProjectRoot :: "env \<Rightarrow> string \<Rightarrow> error + string option" where
  "findProjectRoot env fp = findProjectRootFrom env (dirname fp)"

definition resolveGoImport :: "env \<Rightarrow> string \<Rightarrow> string \<Rightarrow> error + string option" where
  "resolveGoImport env fp importPath =
     (if startsWith importPath ''./'' \<or> startsWith importPath ''../'' then
        let basePath = dirname fp;
            resolvedPath = pathResolve (cwd env) [basePath, importPath]
        in if pathExists env resolvedPath then
             (case readdir env resolvedPath of
                None \<Rightarrow> Inl (ReaddirError resolvedPath)
              | Some files \<Rightarrow>
                  (case find (\<lambda>f. endsWith f ''.go'') files of
                     None \<Rightarrow> Inr None
                   | Some goFile \<Rightarrow>
                       if goFile = [] then Inr None
                       else Inr (Some (pathJoin [resolvedPath, goFile]))))
           else Inr None
      else Inr None)"

definition resolveJavaImport :: "env \<Rightarrow> string \<Rightarrow> string \<Rightarrow> error + string option" where
  "resolveJavaImport env fp importPath =
     (let relativePath = replaceAllChar (CHR ''.'') ''/'' importPath @ ''.java'' in
      case findProjectRoot env fp of
        Inl e \<Rightarrow> Inl e
      | Inr None \<Rightarrow> Inr None
      | Inr (Some projectRoot) \<Rightarrow>
          if projectRoot = [] then Inr None
          else
            let possiblePaths =
                  [pathJoin [projectRoot, ''src'', ''main'', ''java'', relativePath],
                   pathJoin [projectRoot, ''src'', relativePath],
                   pathJoin [dirname fp, relativePath]]
            in Inr (find (pathExists env) possiblePaths))"

definition resolveCSharpUsing :: "env \<Rightarrow> string \<Rightarrow> string \<Rightarrow> error + string option" where
  "resolveCSharpUsing env fp usingPath =
     (let relativePath = replaceAllChar (CHR ''.'') ''/'' usingPath @ ''.cs'' in
      case findProjectRoot env fp of
        Inl e \<Rightarrow> Inl e
      | Inr None \<Rightarrow> Inr None
      | Inr (Some projectRoot) \<Rightarrow>
          if projectRoot = [] then Inr None
          else
            let possiblePaths =
                  [pathJoin [projectRoot, relativePath],
                   pathJoin [dirname fp, relativePath]]
            in Inr (find (pathExists env) possiblePaths))"

subsection \<open>The regular expressions of the three language variants\<close>

text \<open>A group that is part of every match of its regular expression; a group that is
  not set reads \<^verbatim>\<open>undefined\<close> in a template string.\<close>

definition groupText :: "rmatch \<Rightarrow> nat \<Rightarrow> string" where
  "groupText m i = (case group m i of Some g \<Rightarrow> g | None \<Rightarrow> ''undefined'')"

text \<open>\<^verbatim>\<open>/import\s+(?:\(\s*([^)]+)\s*\)|"([^"]+)")/g\<close>\<close>

definition goImportRegex :: rx where
  "goImportRegex =
     seqs [word ''import'', Plus (Atom Space),
           Alt (seqs [Atom (Lit (CHR ''('')), Star (Atom Space),
                      Grp 1 (Plus (Atom (NoneOf [Lit (CHR '')'')]))),
                      Star (Atom Space), Atom (Lit (CHR '')''))])
               (seqs [Atom (Lit (CHR 0x22)),
                      Grp 2 (Plus (Atom (NoneOf [Lit (CHR 0x22)]))),
                      Atom (Lit (CHR 0x22))])]"

text \<open>\<^verbatim>\<open>/import\s+(?:static\s+)?([^;]+);/g\<close>\<close>

definition javaImportRegex :: rx where
  "javaImportRegex =
     seqs [word ''import'', Plus (Atom Space),
           Opt (seqs [word ''static'', Plus (Atom Space)]),
           Grp 1 (Plus (Atom (NoneOf [Lit (CHR '';'')]))),
           Atom (Lit (CHR '';''))]"

text \<open>\<^verbatim>\<open>/class\s+(\w+)(?:\s+extends\s+(\w+))?(?:\s+implements\s+([\w,\s]+))?/g\<close>\<close>

definition javaClassRegex :: rx where
  "javaClassRegex =
     seqs [word ''class'', Plus (Atom Space), Grp 1 (Plus (Atom WordCh)),
           Opt (seqs [Plus (Atom Space), word ''extends'', Plus (Atom Space),
                      Grp 2 (Plus (Atom WordCh))]),
           Opt (seqs [Plus (Atom Space), word ''implements'', Plus (Atom Space),
                      Grp 3 (Plus (Atom (OneOf [WordCh, Lit (CHR '',''), Space])))])]"

text \<open>\<^verbatim>\<open>/@(\w+)(?:\([^)]*\))?/g\<close>\<close>

definition annotationRegex :: rx where
  "annotationRegex =
     seqs [Atom (Lit (CHR ''@'')), Grp 1 (Plus (Atom WordCh)),
           Opt (seqs [Atom (Lit (CHR ''('')), Star (Atom (NoneOf [Lit (CHR '')'')])),
                      Atom (Lit (CHR '')''))])]"

text \<open>\<^verbatim>\<open>/@Autowired\s+(?:private|protected|public)?\s*(\w+)\s+(\w+);/g\<close>\<close>

definition fieldRegex :: rx where
  "fieldRegex =
     seqs [word ''@Autowired'', Plus (Atom Space),
           Opt (Alt (word ''private'') (Alt (word ''protected'') (word ''public''))),
           Star (Atom Space), Grp 1 (Plus (Atom WordCh)), Plus (Atom Space),
           Grp 2 (Plus (Atom WordCh)), Atom (Lit (CHR '';''))]"

text \<open>\<^verbatim>\<open>/using\s+([^;]+);/g\<close>\<close>

definition usingRegex :: rx where
  "usingRegex =
     seqs [word ''using'', Plus (Atom Space),
           Grp 1 (Plus (Atom (NoneOf [Lit (CHR '';'')]))), Atom (Lit (CHR '';''))]"

text \<open>\<^verbatim>\<open>/class\s+(\w+)(?:\s*:\s*([\w,\s<>]+))?/g\<close>\<close>

definition csharpClassRegex :: rx where
  "csharpClassRegex =
     seqs [word ''class'', Plus (Atom Space), Grp 1 (Plus (Atom WordCh)),
           Opt (seqs [Star (Atom Space), Atom (Lit (CHR '':'')), Star (Atom Space),
                      Grp 2 (Plus (Atom (OneOf [WordCh, Lit (CHR '',''), Space,
                                                Lit (CHR ''<''), Lit (CHR ''>'')])))])]"

text \<open>\<^verbatim>\<open>/(?:private|protected|public)\s+readonly\s+I(\w+)\s+_(\w+);/g\<close>\<close>

definition diRegex :: rx where
  "diRegex =
     seqs [Alt (word ''private'') (Alt (word ''protected'') (word ''public'')),
           Plus (Atom Space), word ''readonly'', Plus (Atom Space),
           Atom (Lit (CHR ''I'')), Grp 1 (Plus (Atom WordCh)), Plus (Atom Space),
           Atom (Lit (CHR ''_'')), Grp 2 (Plus (Atom WordCh)), Atom (Lit (CHR '';''))]"

text \<open>\<^verbatim>\<open>/<.*>/\<close>\<close>

definition genericsRegex :: rx where
  "genericsRegex = seqs [Atom (Lit (CHR ''<'')), Star (Atom AnyChar), Atom (Lit (CHR ''>''))]"

subsection \<open>Go\<close>

definition goImportLine :: "env \<Rightarrow> string \<Rightarrow> ContextAnalyzer \<Rightarrow> string \<Rightarrow> error + ContextAnalyzer" where
  "goImportLine env fp st importLine =
     (let cleanImport = trim (replaceAllChar (CHR 0x22) [] importLine) in
      if cleanImport \<noteq> [] \<and> \<not> startsWith cleanImport ''//'' then
        (case resolveGoImport env fp cleanImport of
           Inl e \<Rightarrow> Inl e
         | Inr resolvedPath \<Rightarrow> Inr (pushIfResolved st fp resolvedPath Import cleanImport))
      else Inr st)"

definition goImportMatch :: "env \<Rightarrow> string \<Rightarrow> ContextAnalyzer \<Rightarrow> rmatch \<Rightarrow> error + ContextAnalyzer" where
  "goImportMatch env fp st m =
     (let imports = (case group m 1 of
                       None \<Rightarrow> group m 2
                     | Some g \<Rightarrow> if g = [] then group m 2 else Some g)
      in case imports of
           None \<Rightarrow> Inr st
         | Some imps \<Rightarrow>
             if imps = [] then Inr st
             else
               let importLines = filter (\<lambda>line. trim line \<noteq> []) (split (CHR 0x0A) imps)
               in forEach (goImportLine env fp) importLines st)"

text \<open>The second loop of the source, over the struct declarations, has an empty body.\<close>

definition analyzeGoRelationships ::
  "env \<Rightarrow> ContextAnalyzer \<Rightarrow> string \<Rightarrow> string \<Rightarrow> error + ContextAnalyzer" where
  "analyzeGoRelationships env st fp content =
     forEach (goImportMatch env fp) (rxExecAll goImportRegex content 0) st"

subsection \<open>Java\<close>

definition javaImportMatch :: "env \<Rightarrow> string \<Rightarrow> ContextAnalyzer \<Rightarrow> rmatch \<Rightarrow> error + ContextAnalyzer" where
  "javaImportMatch env fp st m =
     (case group m 1 of
        None \<Rightarrow> Inr st
      | Some g \<Rightarrow>
          let importPath = trim g in
          if importPath \<noteq> [] then
            (case resolveJavaImport env fp importPath of
               Inl e \<Rightarrow> Inl e
             | Inr resolvedPath \<Rightarrow> Inr (pushIfResolved st fp resolvedPath Import importPath))
          else Inr st)"

definition javaImplements :: "string \<Rightarrow> string \<Rightarrow> ContextAnalyzer \<Rightarrow> string \<Rightarrow> ContextAnalyzer" where
  "javaImplements fp className st interfaceName =
     pushIfResolved st fp (findClassDefinition st fp interfaceName) Implements
       (className @ '' implements '' @ interfaceName)"

definition javaClassMatch :: "string \<Rightarrow> ContextAnalyzer \<Rightarrow> rmatch \<Rightarrow> ContextAnalyzer" where
  "javaClassMatch fp st m =
     (let className = groupText m 1;
          st1 = (case group m 2 of
                   None \<Rightarrow> st
                 | Some extendsClass \<Rightarrow>
                     if extendsClass = [] then st
                     else pushIfResolved st fp (findClassDefinition st fp extendsClass) Extends
                            (className @ '' extends '' @ extendsClass))
      in case group m 3 of
           None \<Rightarrow> st1
         | Some implementsInterfaces \<Rightarrow>
             if implementsInterfaces = [] then st1
             else
               let interfaces = map trim (split (CHR '','') implementsInterfaces)
               in foldl (javaImplements fp className) st1 interfaces)"

definition autowiredField :: "string \<Rightarrow> ContextAnalyzer \<Rightarrow> rmatch \<Rightarrow> ContextAnalyzer" where
  "autowiredField fp st m =
     (let serviceType = groupText m 1;
          fieldName = groupText m 2
      in pushIfResolved st fp (findClassDefinition st fp serviceType) References
           (''@Autowired '' @ serviceType @ '' '' @ fieldName))"

definition findServiceDependencies ::
  "ContextAnalyzer \<Rightarrow> string \<Rightarrow> string \<Rightarrow> string \<Rightarrow> ContextAnalyzer" where
  "findServiceDependencies st fp content annotation =
     foldl (autowiredField fp) st (rxExecAll fieldRegex content 0)"

definition annotationMatch :: "string \<Rightarrow> string \<Rightarrow> ContextAnalyzer \<Rightarrow> rmatch \<Rightarrow> ContextAnalyzer" where
  "annotationMatch fp content st m =
     (let annotation = groupText m 1 in
      if annotation \<in> set [''Autowired'', ''Inject'', ''Service'', ''Component'', ''Repository'']
      then findServiceDependencies st fp content annotation
      else st)"

definition analyzeJavaRelationships ::
  "env \<Rightarrow> ContextAnalyzer \<Rightarrow> string \<Rightarrow> string \<Rightarrow> error + ContextAnalyzer" where
  "analyzeJavaRelationships env st fp content =
     (case forEach (javaImportMatch env fp) (rxExecAll javaImportRegex content 0) st of
        Inl e \<Rightarrow> Inl e
      | Inr st1 \<Rightarrow>
          let st2 = foldl (javaClassMatch fp) st1 (rxExecAll javaClassRegex content 0)
          in Inr (foldl (annotationMatch fp content) st2 (rxExecAll annotationRegex content 0)))"

subsection \<open>C#\<close>

definition usingMatch :: "env \<Rightarrow> string \<Rightarrow> ContextAnalyzer \<Rightarrow> rmatch \<Rightarrow> error + ContextAnalyzer" where
  "usingMatch env fp st m =
     (case group m 1 of
        None \<Rightarrow> Inr st
      | Some g \<Rightarrow>
          let usingPath = trim g in
          if usingPath \<noteq> [] then
            (case resolveCSharpUsing env fp usingPath of
               Inl e \<Rightarrow> Inl e
             | Inr resolvedPath \<Rightarrow> Inr (pushIfResolved st fp resolvedPath Import usingPath))
          else Inr st)"

definition csharpBaseType :: "string \<Rightarrow> string \<Rightarrow> ContextAnalyzer \<Rightarrow> string \<Rightarrow> ContextAnalyzer" where
  "csharpBaseType fp className st baseType =
     (let cleanType = replaceFirst genericsRegex [] baseType in
      pushIfResolved st fp (findClassDefinition st fp cleanType) Extends
        (className @ '' : '' @ baseType))"

definition csharpClassMatch :: "string \<Rightarrow> ContextAnalyzer \<Rightarrow> rmatch \<Rightarrow> ContextAnalyzer" where
  "csharpClassMatch fp st m =
     (let className = groupText m 1 in
      case group m 2 of
        None \<Rightarrow> st
      | Some baseTypes \<Rightarrow>
          if baseTypes = [] then st
          else
            let types = map trim (split (CHR '','') baseTypes)
            in foldl (csharpBaseType fp className) st types)"

definition diMatch :: "string \<Rightarrow> ContextAnalyzer \<Rightarrow> rmatch \<Rightarrow> ContextAnalyzer" where
  "diMatch fp st m =
     (let interfaceName = ''I'' @ groupText m 1 in
      pushIfResolved st fp (findClassDefinition st fp interfaceName) References
        (''Dependency injection: '' @ interfaceName))"

definition analyzeCSharpRelationships ::
  "env \<Rightarrow> ContextAnalyzer \<Rightarrow> string \<Rightarrow> string \<Rightarrow> error + ContextAnalyzer" where
  "analyzeCSharpRelationships env st fp content =
     (case forEach (usingMatch env fp) (rxExecAll usingRegex content 0) st of
        Inl e \<Rightarrow> Inl e
      | Inr st1 \<Rightarrow>
          let st2 = foldl (csharpClassMatch fp) st1 (rxExecAll csharpClassRegex content 0)
          in Inr (foldl (diMatch fp) st2 (rxExecAll diRegex content 0)))"

subsection \<open>The pass over the module table\<close>

definition findRelationshipsForFile ::
  "env \<Rightarrow> ContextAnalyzer \<Rightarrow> string \<Rightarrow> CodeModule \<Rightarrow> error + ContextAnalyzer" where
  "findRelationshipsForFile env st fp module =
     (case readFile env fp of
        None \<Rightarrow> Inl (ReadFileError fp)
      | Some content \<Rightarrow>
          (case language module of
             Go \<Rightarrow> analyzeGoRelationships env st fp content
           | Java \<Rightarrow> analyzeJavaRelationships env st fp content
           | CSharp \<Rightarrow> analyzeCSharpRelationships env st fp content))"

definition analyzeFileRelationships :: "env \<Rightarrow> ContextAnalyzer \<Rightarrow> error + ContextAnalyzer" where
  "analyzeFileRelationships env st =
     forEach (\<lambda>s (fp, module). findRelationshipsForFile env s fp module) (codeModules st) st"

text \<open>\<^verbatim>\<open>extractCrossFileReferences\<close>: a loop over the relationships with an empty body.\<close>

definition extractCrossFileReferences :: "ContextAnalyzer \<Rightarrow> ContextAnalyzer" where
  "extractCrossFileReferences st = st"

section \<open>Grouping and context assembly\<close>

text \<open>The body of the loop of \<^verbatim>\<open>groupFilesByService\<close>: the group of the name is created
  empty when the name is new, then the file is pushed onto it.\<close>

definition addToGroup :: "(string \<times> string list) list \<Rightarrow> string \<Rightarrow> (string \<times> string list) list" where
  "addToGroup groups fp =
     (let service = extractServiceName fp;
          groups1 = (if service \<notin> fst ` set groups then AList.update service [] groups
                     else groups)
      in case map_of groups1 service of
           None \<Rightarrow> groups1
         | Some files \<Rightarrow> AList.update service (files @ [fp]) groups1)"

definition groupFilesByService :: "ContextAnalyzer \<Rightarrow> (string \<times> string list) list" where
  "groupFilesByService st = foldl addToGroup [] (map fst (codeModules st))"

definition emptyContext :: "string \<Rightarrow> string \<Rightarrow> ServiceContext" where
  "emptyContext service root =
     \<lparr>serviceName = service, rootPath = root, controllers = [], services = [], models = [],
      repositories = [], configurations = [], utilities = [], tests = [],
      relationships = [], apiEndpoints = [], businessLogic = [], dataModels = []\<rparr>"

text \<open>The body of the first loop of \<^verbatim>\<open>createServiceContext\<close>.\<close>

definition addModule :: "ContextAnalyzer \<Rightarrow> ServiceContext \<Rightarrow> string \<Rightarrow> ServiceContext" where
  "addModule st ctx fp =
     (case map_of (codeModules st) fp of
        None \<Rightarrow> ctx
      | Some module \<Rightarrow>
          let fileType = categorizeFile fp in
          if fileType = ''controller'' then
            ctx\<lparr>controllers := controllers ctx @ [module],
                apiEndpoints := apiEndpoints ctx @ endpoints module\<rparr>
          else if fileType = ''service'' then
            ctx\<lparr>services := services ctx @ [module],
                businessLogic := businessLogic ctx @ classes module\<rparr>
          else if fileType = ''model'' then
            ctx\<lparr>models := models ctx @ [module],
                dataModels := dataModels ctx @ classes module\<rparr>
          else if fileType = ''repository'' then
            ctx\<lparr>repositories := repositories ctx @ [module]\<rparr>
          else if fileType = ''config'' then
            ctx\<lparr>configurations := configurations ctx @ [module]\<rparr>
          else if fileType = ''utility'' then
            ctx\<lparr>utilities := utilities ctx @ [module]\<rparr>
          else if fileType = ''test'' then
            ctx\<lparr>tests := tests ctx @ [module]\<rparr>
          else ctx\<lparr>utilities := utilities ctx @ [module]\<rparr>)"

definition createServiceContext ::
  "ContextAnalyzer \<Rightarrow> string \<Rightarrow> string \<Rightarrow> string list \<Rightarrow> ServiceContext" where
  "createServiceContext st service root files =
     (let ctx = foldl (addModule st) (emptyContext service root) files
      in ctx\<lparr>relationships :=
               filter (\<lambda>rel. sourceFile rel \<in> set files \<or> targetFile rel \<in> set files)
                 (fileRelationships st)\<rparr>)"

text \<open>The loop of \<^verbatim>\<open>groupIntoServiceContexts\<close> carries the contexts and the set
  \<^verbatim>\<open>processedFiles\<close>, of which only membership is read.\<close>

definition contextStep ::
  "ContextAnalyzer \<Rightarrow> string \<Rightarrow> ServiceContext list \<times> string list \<Rightarrow> string \<times> string list
     \<Rightarrow> ServiceContext list \<times> string list" where
  "contextStep st basePath acc entry =
     (case acc of (contexts, processedFiles) \<Rightarrow>
        (case entry of (service, files) \<Rightarrow>
           (contexts @ [createServiceContext st service basePath files],
            processedFiles @ files)))"

definition groupIntoServiceContexts :: "ContextAnalyzer \<Rightarrow> string \<Rightarrow> ServiceContext list" where
  "groupIntoServiceContexts st basePath =
     (let serviceGroups = groupFilesByService st in
      case foldl (contextStep st basePath) ([], []) serviceGroups of
        (contexts, processedFiles) \<Rightarrow>
          let ungroupedFiles =
                filter (\<lambda>file. file \<notin> set processedFiles) (map fst (codeModules st))
          in if ungroupedFiles \<noteq> []
             then contexts @ [createServiceContext st ''General'' basePath ungroupedFiles]
             else contexts)"

section \<open>The entry point\<close>

text \<open>\<^verbatim>\<open>analyzeDirectory\<close> returns the contexts; the analyzer it leaves behind is
  returned with them. The handler of the source logs the error and throws it again.\<close>

definition analyzeDirectory ::
  "env \<Rightarrow> nat \<Rightarrow> ContextAnalyzer \<Rightarrow> string
     \<Rightarrow> (error + ServiceContext list \<times> ContextAnalyzer) option" where
  "analyzeDirectory env fuel st directoryPath =
     (case parseAllFiles env fuel st directoryPath of
        None \<Rightarrow> None
      | Some (Inl e) \<Rightarrow> Some (Inl e)
      | Some (Inr st1) \<Rightarrow>
          (case analyzeFileRelationships env st1 of
             Inl e \<Rightarrow> Some (Inl e)
           | Inr st2 \<Rightarrow>
               let st3 = extractCrossFileReferences st2
               in Some (Inr (groupIntoServiceContexts st3 directoryPath, st3))))"

section \<open>The dependency graph query\<close>

record GraphEdge =
  edgeFrom :: string
  edgeTo :: string
  edgeType :: relationType

record DependencyGraph =
  nodes :: "string list"
  edges :: "GraphEdge list"

text \<open>\<^verbatim>\<open>Set.add\<close> on a set kept in insertion order.\<close>

definition setAdd :: "'a \<Rightarrow> 'a list \<Rightarrow> 'a list" where
  "setAdd x xs = (if x \<in> set xs then xs else xs @ [x])"

definition graphStep :: "string \<Rightarrow> DependencyGraph \<Rightarrow> FileRelationship \<Rightarrow> DependencyGraph" where
  "graphStep service g relationship =
     (let sourceServiceName = extractServiceName (sourceFile relationship);
          targetServiceName = extractServiceName (targetFile relationship)
      in if sourceServiceName = service \<or> targetServiceName = service then
           \<lparr>nodes = setAdd (basename (targetFile relationship))
                      (setAdd (basename (sourceFile relationship)) (nodes g)),
            edges = edges g @
                      [\<lparr>edgeFrom = basename (sourceFile relationship),
                        edgeTo = basename (targetFile relationship),
                        edgeType = relationType relationship\<rparr>]\<rparr>
         else g)"

text \<open>The method reads \<^verbatim>\<open>this.fileRelationships\<close>; the analyzer after the call is
  returned next to the graph.\<close>

definition getServiceDependencyGraph ::
  "ContextAnalyzer \<Rightarrow> string \<Rightarrow> DependencyGraph \<times> ContextAnalyzer" where
  "getServiceDependencyGraph st service =
     (foldl (graphStep service) \<lparr>nodes = [], edges = []\<rparr> (fileRelationships st), st)"

section \<open>The categories as the specification words them\<close>

text \<open>Two ordered tables: the keywords looked for inside the lower-cased file name, and
  the directory names compared with the lower-cased name of the parent directory. The
  first row that applies gives the category.\<close>

definition fileNameChecks :: "(string list \<times> string) list" where
  "fileNameChecks =
     [([''controller'', ''handler'', ''router''], ''controller''),
      ([''service'', ''manager'', ''provider''], ''service''),
      ([''model'', ''entity'', ''dto'', ''domain''], ''model''),
      ([''repository'', ''dao'', ''data''], ''repository''),
      ([''config'', ''setting'', ''property''], ''config''),
      ([''util'', ''helper'', ''tool''], ''utility''),
      ([''test'', ''spec''], ''test'')]"

definition directoryChecks :: "(string list \<times> string) list" where
  "directoryChecks =
     [([''controller'', ''controllers'', ''handler'', ''handlers''], ''controller''),
      ([''service'', ''services'', ''business'', ''logic''], ''service''),
      ([''model'', ''models'', ''entity'', ''entities'', ''domain'', ''dto''], ''model''),
      ([''repository'', ''repositories'', ''dao'', ''data''], ''repository''),
      ([''config'', ''configuration'', ''settings''], ''config''),
      ([''util'', ''utils'', ''utility'', ''utilities'', ''helper'', ''helpers''], ''utility''),
      ([''test'', ''tests'', ''spec'', ''specs''], ''test'')]"

definition categorySpec :: "string \<Rightarrow> string" where
  "categorySpec fp =
     (case find (\<lambda>(keywords, category).
                   \<exists>k \<in> set keywords. includesStr (toLowerCase (basename fp)) k)
             fileNameChecks of
        Some (keywords, category) \<Rightarrow> category
      | None \<Rightarrow>
          (case find (\<lambda>(names, category). toLowerCase (basename (dirname fp)) \<in> set names)
                  directoryChecks of
             Some (names, category) \<Rightarrow> category
           | None \<Rightarrow> ''unknown''))"

section \<open>Facts about paths\<close>

lemma stripTrailingSlashes_id:
  "p \<noteq> [] \<Longrightarrow> last p \<noteq> CHR ''/'' \<Longrightarrow> stripTrailingSlashes p = p"
  unfolding stripTrailingSlashes_def
  by (cases "rev p") (auto simp: last_rev hd_rev)

lemma lastSegment_append:
  assumes "f \<noteq> []" "CHR ''/'' \<notin> set f"
  shows "lastSegment (d @ ''/'' @ f) = f"
proof -
  have "stripTrailingSlashes (d @ ''/'' @ f) = d @ ''/'' @ f"
    using assms by (intro stripTrailingSlashes_id) (auto dest: last_in_set)
  moreover have "takeWhile (\<lambda>c. c \<noteq> CHR ''/'') (rev f @ CHR ''/'' # rev d) = rev f"
    using assms by (auto simp: takeWhile_tail takeWhile_eq_all_conv)
  ultimately show ?thesis by (simp add: lastSegment_def)
qed

lemma dirname_append:
  assumes "f \<noteq> []" "CHR ''/'' \<notin> set f" "q \<noteq> []" "q \<noteq> ''/''"
  shows "dirname (q @ ''/'' @ f) = q"
proof -
  obtain a q' where q: "q = a # q'" using assms(3) by (cases q) auto
  have tlp: "tl (q @ ''/'' @ f) = q' @ CHR ''/'' # f" by (simp add: q)
  have s: "stripTrailingSlashes (q' @ CHR ''/'' # f) = q' @ CHR ''/'' # f"
    using assms by (intro stripTrailingSlashes_id) (auto dest: last_in_set)
  have t: "takeWhile (\<lambda>c. c \<noteq> CHR ''/'') (rev f @ CHR ''/'' # rev q') = rev f"
    using assms by (auto simp: takeWhile_tail takeWhile_eq_all_conv)
  have e: "dirname (q @ ''/'' @ f) =
      (if a = CHR ''/'' \<and> length q = 1 then ''//'' else take (length q) (q @ ''/'' @ f))"
    unfolding dirname_def tlp Let_def s using t by (simp add: q)
  have "q' \<noteq> [] \<or> a \<noteq> CHR ''/''" using assms(4) q by auto
  then show ?thesis
    unfolding e by (auto simp: q)
qed

section \<open>Categories\<close>

lemma categorizeFile_refines: "categorizeFile fp = categorySpec fp"
  by (simp add: categorizeFile_def categorySpec_def fileNameChecks_def directoryChecks_def Let_def)

lemma category_payment_repository:
  "categorizeFile (d @ ''/payment_repository.go'') = ''repository''"
proof -
  have b: "basename (d @ ''/payment_repository.go'') = ''payment_repository.go''"
    using lastSegment_append [of "''payment_repository.go''" d] by (simp add: basename_def)
  have l: "toLowerCase ''payment_repository.go'' = ''payment_repository.go''" by code_simp
  show ?thesis
    unfolding categorizeFile_def b l Let_def by code_simp
qed

lemma category_controllers_index:
  "categorizeFile (d @ ''/controllers/index.go'') = ''controller''"
proof -
  have b: "basename (d @ ''/controllers/index.go'') = ''index.go''"
    using lastSegment_append [of "''index.go''" "d @ ''/controllers''"]
    by (simp add: basename_def)
  have dn: "dirname (d @ ''/controllers/index.go'') = d @ ''/controllers''"
    using dirname_append [of "''index.go''" "d @ ''/controllers''"] by simp
  have bd: "basename (d @ ''/controllers'') = ''controllers''"
    using lastSegment_append [of "''controllers''" d] by (simp add: basename_def)
  have l: "toLowerCase ''index.go'' = ''index.go''"
    "toLowerCase ''controllers'' = ''controllers''" by code_simp+
  show ?thesis
    unfolding categorizeFile_def b dn bd l Let_def by code_simp
qed

text \<open>
  Claim C4. For every file path, \<open>categorizeFile\<close> is the table-driven procedure of the
  specification: the ordered keyword checks on the lower-cased file name first, the
  exact comparisons of the lower-cased parent directory name only when no keyword
  matched, and \<open>unknown\<close> when nothing applies. A file named
  \<^verbatim>\<open>payment_repository.go\<close> is a \<open>repository\<close> under every parent directory and with
  none; \<^verbatim>\<open>index.go\<close> inside a directory \<^verbatim>\<open>controllers\<close> is a \<open>controller\<close>.
\<close>

theorem categorizeFile_deterministic:
  "categorizeFile fp = categorySpec fp
   \<and> categorizeFile (d @ ''/payment_repository.go'') = ''repository''
   \<and> categorizeFile ''payment_repository.go'' = ''repository''
   \<and> categorizeFile (d @ ''/controllers/index.go'') = ''controller''
   \<and> categorizeFile ''controllers/index.go'' = ''controller''"
proof -
  have "categorizeFile ''payment_repository.go'' = ''repository''" by code_simp
  moreover have "categorizeFile ''controllers/index.go'' = ''controller''" by code_simp
  ultimately show ?thesis
    using categorizeFile_refines category_payment_repository category_controllers_index
    by simp
qed

theorem categorizeFile_deterministic_witness:
  "categorizeFile ''src/services/UserModel.java'' = ''model''
   \<and> categorySpec ''src/services/UserModel.java'' = ''model''
   \<and> categorizeFile ''/srv/app/handlers/payment_repository.go'' = ''repository''
   \<and> categorizeFile ''/srv/controllers/index.go'' = ''controller''
   \<and> categorizeFile ''lib/readme.go'' = ''unknown''"
proof -
  have a: "categorySpec ''src/services/UserModel.java'' = ''model''" by code_simp
  have b: "categorizeFile ''lib/readme.go'' = ''unknown''" by code_simp
  show ?thesis
    using categorizeFile_deterministic [of "''src/services/UserModel.java''" "''/srv/app/handlers''"]
      categorizeFile_deterministic [of "''src/services/UserModel.java''" "''/srv''"] a b
    by simp
qed

section \<open>A worked example\<close>

text \<open>A Java project under \<^verbatim>\<open>/p\<close> with a build descriptor, two sources and a generated
  source in the directory \<^verbatim>\<open>build\<close>, which the traversal skips. The text of
  \<^verbatim>\<open>UserController.java\<close> imports the generated class and a class that is nowhere, and
  extends a class that \<^verbatim>\<open>OrderService.java\<close> declares.\<close>

definition fileStats :: Stats where
  "fileStats = \<lparr>isDirectory = False, isFile = True, mtime = 0\<rparr>"

definition dirStats :: Stats where
  "dirStats = \<lparr>isDirectory = True, isFile = False, mtime = 0\<rparr>"

definition userSource :: string where
  "userSource = ''import build.Gen;import missing.X;class UserController extends OrderService''"

definition orderClass :: ClassInfo where
  "orderClass = \<lparr>name = ''OrderService'', description = [], methods = [], properties = [],
                  annotations = [], lineNumber = 1\<rparr>"

definition exampleEnv :: env where
  "exampleEnv =
     \<lparr>readdir = (\<lambda>p. if p = ''/p''
                       then Some [''OrderService.java'', ''UserController.java'', ''build'', ''pom.xml'']
                       else if p = ''/p/build'' then Some [''Gen.java''] else None),
      stat = (\<lambda>p. if p \<in> set [''/p'', ''/p/build''] then Some dirStats
                    else if p \<in> set [''/p/OrderService.java'', ''/p/UserController.java'',
                                       ''/p/pom.xml'', ''/p/build/Gen.java'']
                    then Some fileStats else None),
      readFile = (\<lambda>p. if p = ''/p/UserController.java'' then Some userSource
                        else if p = ''/p/OrderService.java'' then Some ''class OrderService''
                        else if p = ''/p/build/Gen.java'' then Some ''class Gen''
                        else if p = ''/p/pom.xml'' then Some [] else None),
      pathExists = (\<lambda>p. p \<in> set [''/p'', ''/p/build'', ''/p/OrderService.java'',
                                     ''/p/UserController.java'', ''/p/pom.xml'',
                                     ''/p/build/Gen.java'']),
      cwd = ''/'',
      extractApiEndpoints = (\<lambda>l c p. Some []),
      extractClasses = (\<lambda>l c p. if p = ''/p/OrderService.java'' then Some [orderClass]
                                   else Some []),
      extractFunctions = (\<lambda>l c p. Some [])\<rparr>"

definition orderModule :: CodeModule where
  "orderModule = \<lparr>filePath = ''/p/OrderService.java'', language = Java, endpoints = [],
                   classes = [orderClass], functionInfos = [], lastModified = 0\<rparr>"

definition userModule :: CodeModule where
  "userModule = \<lparr>filePath = ''/p/UserController.java'', language = Java, endpoints = [],
                  classes = [], functionInfos = [], lastModified = 0\<rparr>"

definition importEdge :: FileRelationship where
  "importEdge = \<lparr>sourceFile = ''/p/UserController.java'', targetFile = ''/p/build/Gen.java'',
                  relationType = Import, details = ''build.Gen''\<rparr>"

definition extendsEdge :: FileRelationship where
  "extendsEdge = \<lparr>sourceFile = ''/p/UserController.java'', targetFile = ''/p/OrderService.java'',
                   relationType = Extends, details = ''UserController extends OrderService''\<rparr>"

definition exampleParsed :: ContextAnalyzer where
  "exampleParsed =
     \<lparr>codeModules = [(''/p/OrderService.java'', orderModule),
                      (''/p/UserController.java'', userModule)],
      fileRelationships = [], crossReferences = []\<rparr>"

definition exampleAnalyzed :: ContextAnalyzer where
  "exampleAnalyzed = exampleParsed\<lparr>fileRelationships := [importEdge, extendsEdge]\<rparr>"

definition exampleTwice :: ContextAnalyzer where
  "exampleTwice =
     exampleParsed\<lparr>fileRelationships := [importEdge, extendsEdge, importEdge, extendsEdge]\<rparr>"

definition orderContext :: ServiceContext where
  "orderContext =
     (emptyContext ''Order'' ''/p'')
       \<lparr>services := [orderModule], relationships := [extendsEdge],
        businessLogic := [orderClass]\<rparr>"

definition userContext :: ServiceContext where
  "userContext =
     (emptyContext ''User'' ''/p'')
       \<lparr>controllers := [userModule], relationships := [importEdge, extendsEdge]\<rparr>"

text \<open>A directory with a dangling entry, and a Go file whose relative import names a
  regular file.\<close>

definition brokenEnv :: env where
  "brokenEnv =
     exampleEnv
       \<lparr>readdir := (\<lambda>p. if p = ''/q'' then Some [''a.go'', ''dangling''] else None),
        stat := (\<lambda>p. if p = ''/q/a.go'' then Some fileStats else None),
        readFile := (\<lambda>p. if p = ''/q/a.go'' then Some ''package a'' else None)\<rparr>"

definition libImport :: string where
  "libImport = ''import '' @ [CHR 0x22] @ ''./lib'' @ [CHR 0x22]"

definition importEnv :: env where
  "importEnv =
     exampleEnv
       \<lparr>readdir := (\<lambda>p. if p = ''/r'' then Some [''a.go'', ''lib''] else None),
        stat := (\<lambda>p. if p = ''/r/a.go'' \<or> p = ''/r/lib'' then Some fileStats else None),
        readFile := (\<lambda>p. if p = ''/r/a.go'' then Some libImport else None),
        pathExists := (\<lambda>p. p \<in> set [''/r'', ''/r/a.go'', ''/r/lib''])\<rparr>"

definition goModule :: CodeModule where
  "goModule = \<lparr>filePath = ''/r/a.go'', language = Go, endpoints = [], classes = [],
                functionInfos = [], lastModified = 0\<rparr>"

text \<open>The analyzer after the parse phase over the Go file.\<close>

definition goParsed :: ContextAnalyzer where
  "goParsed = \<lparr>codeModules = [(''/r/a.go'', goModule)], fileRelationships = [],
               crossReferences = []\<rparr>"



text \<open>A source below a directory that is entered; the service of the example when it
  can no longer be read; a Java source without a project marker below a directory that
  cannot be listed.\<close>

definition nestedEnv :: env where
  "nestedEnv =
     exampleEnv
       \<lparr>readdir := (\<lambda>p. if p = ''/n'' then Some [''src'']
                          else if p = ''/n/src'' then Some [''a.go''] else None),
        stat := (\<lambda>p. if p = ''/n'' \<or> p = ''/n/src'' then Some dirStats
                       else if p = ''/n/src/a.go'' then Some fileStats else None),
        readFile := (\<lambda>p. if p = ''/n/src/a.go'' then Some ''package a'' else None),
        pathExists := (\<lambda>p. p \<in> set [''/n'', ''/n/src'', ''/n/src/a.go''])\<rparr>"

definition unreadableEnv :: env where
  "unreadableEnv =
     exampleEnv\<lparr>readFile := (\<lambda>p. if p = ''/p/OrderService.java'' then None
                                 else readFile exampleEnv p)\<rparr>"

definition lockedSource :: string where
  "lockedSource = ''import x.Y;class A {}''"

definition lockedEnv :: env where
  "lockedEnv =
     exampleEnv
       \<lparr>readdir := (\<lambda>p. if p = ''/l/app'' then Some [''A.java''] else None),
        stat := (\<lambda>p. if p = ''/l'' \<or> p = ''/l/app'' then Some dirStats
                       else if p = ''/l/app/A.java'' then Some fileStats else None),
        readFile := (\<lambda>p. if p = ''/l/app/A.java'' then Some lockedSource else None),
        pathExists := (\<lambda>p. p \<in> set [''/l'', ''/l/app'', ''/l/app/A.java''])\<rparr>"

definition lockedParsed :: ContextAnalyzer where
  "lockedParsed =
     \<lparr>codeModules =
        [(''/l/app/A.java'',
          \<lparr>filePath = ''/l/app/A.java'', language = Java, endpoints = [], classes = [],
           functionInfos = [], lastModified = 0\<rparr>)],
      fileRelationships = [], crossReferences = []\<rparr>"




section \<open>Facts about the matcher\<close>

declare rxm.simps [simp del]

declare rxExecAll.simps [simp del]

fun consuming :: "rx \<Rightarrow> bool" where
  "consuming (Atom a) = True"
| "consuming Eps = False"
| "consuming Eos = False"
| "consuming (Seq a b) = (consuming a \<or> consuming b)"
| "consuming (Alt a b) = (consuming a \<and> consuming b)"
| "consuming (Star a) = False"
| "consuming (Grp i a) = consuming a"

lemma rxm_shorter:
  "rxm r s c k = Some res \<Longrightarrow>
     \<exists>s' c'. k s' c' = Some res \<and> length s' \<le> length s \<and> (consuming r \<longrightarrow> length s' < length s)"
proof (induction r s c k arbitrary: res rule: rxm.induct)
  case (1 a s c k)
  then show ?case by (cases s) (auto simp: rxm.simps split: if_splits)
next
  case (2 s c k)
  then show ?case by (auto simp: rxm.simps)
next
  case (3 s c k)
  then show ?case by (auto simp: rxm.simps split: if_splits)
next
  case (4 a b s c k)
  from "4.prems" have "rxm a s c (\<lambda>s' c'. rxm b s' c' k) = Some res" by (simp add: rxm.simps)
  from "4.IH"(2) [OF this] obtain s1 c1 where s1: "rxm b s1 c1 k = Some res"
    "length s1 \<le> length s" "consuming a \<longrightarrow> length s1 < length s" by blast
  from "4.IH"(1) [OF s1(1)] obtain s2 c2 where s2: "k s2 c2 = Some res"
    "length s2 \<le> length s1" "consuming b \<longrightarrow> length s2 < length s1" by blast
  have "length s2 \<le> length s" using s1(2) s2(2) by simp
  moreover have "consuming (Seq a b) \<longrightarrow> length s2 < length s"
    using s1(2,3) s2(2,3) by auto
  ultimately show ?case using s2(1) by blast
next
  case (5 a b s c k)
  show ?case
  proof (cases "rxm a s c k")
    case None
    then have "rxm b s c k = Some res" using "5.prems" by (simp add: rxm.simps)
    from "5.IH"(2) [OF None this] show ?thesis by auto
  next
    case (Some r)
    then have "rxm a s c k = Some res" using "5.prems" by (simp add: rxm.simps)
    from "5.IH"(1) [OF this] show ?thesis by auto
  qed
next
  case (6 a s c k)
  let ?K = "\<lambda>s' c'. if length s' < length s then rxm (Star a) s' c' k else None"
  show ?case
  proof (cases "rxm a s c ?K")
    case None
    then have "k s c = Some res" using "6.prems" by (subst (asm) rxm.simps) simp
    then show ?thesis by auto
  next
    case (Some r)
    then have "rxm a s c ?K = Some res" using "6.prems" by (subst (asm) rxm.simps) simp
    from "6.IH"(2) [OF this] obtain s1 c1 where s1: "?K s1 c1 = Some res" "length s1 \<le> length s"
      by blast
    then have l: "length s1 < length s" and r: "rxm (Star a) s1 c1 k = Some res"
      by (auto split: if_splits)
    from "6.IH"(1) [OF l r] obtain s2 c2 where "k s2 c2 = Some res" "length s2 \<le> length s1"
      by blast
    then show ?thesis using l by (intro exI [of _ s2] exI [of _ c2]) simp
  qed
next
  case (7 i a s c k)
  from "7.prems" have "rxm a s c (\<lambda>s' c'. k s' ((i, take (length s - length s') s) # c')) = Some res"
    by (simp add: rxm.simps)
  from "7.IH" [OF this] show ?case by auto
qed

lemma firstSome_Some: "firstSome f xs = Some y \<Longrightarrow> \<exists>x \<in> set xs. f x = Some y"
  by (induction xs) (auto split: option.splits)

lemma rxExec_bounds:
  assumes "rxExec r s i = Some m"
  shows "i \<le> mstart m" "mstart m + mlen m \<le> length s" "consuming r \<Longrightarrow> 0 < mlen m"
proof -
  from assms obtain j where j: "i \<le> j" "j \<le> length s" "rxAt r s j = Some m"
    unfolding rxExec_def by (auto dest!: firstSome_Some)
  from rxm_shorter [OF j(3) [unfolded rxAt_def]] obtain s' :: string and c' :: caps where
    k: "Some \<lparr>mstart = j, mlen = length (drop j s) - length s', mcaps = c'\<rparr> = Some m"
    and l: "length s' \<le> length (drop j s)" "consuming r \<longrightarrow> length s' < length (drop j s)"
    by blast
  from k have m: "m = \<lparr>mstart = j, mlen = length (drop j s) - length s', mcaps = c'\<rparr>"
    by simp
  show "i \<le> mstart m" using j(1) m by simp
  show "mstart m + mlen m \<le> length s" using j(2) m by simp
  show "consuming r \<Longrightarrow> 0 < mlen m" using l(2) m by simp
qed

lemma rxExecAll_loop:
  assumes "consuming r"
  shows "rxExecAll r s i =
     (case rxExec r s i of None \<Rightarrow> [] | Some m \<Rightarrow> m # rxExecAll r s (mstart m + mlen m))"
proof (cases "rxExec r s i")
  case None
  then show ?thesis by (subst rxExecAll.simps) simp
next
  case (Some m)
  from rxExec_bounds [OF Some] assms
  have "\<not> (mlen m = 0 \<or> mstart m < i \<or> length s < mstart m + mlen m)" by auto
  then show ?thesis using Some by (subst rxExecAll.simps) simp
qed

lemma consuming_word: "w \<noteq> [] \<Longrightarrow> consuming (word w)"
  by (induction w rule: word.induct) auto

lemma analyzer_regexes_consume:
  "consuming goImportRegex" "consuming javaImportRegex" "consuming javaClassRegex"
  "consuming annotationRegex" "consuming fieldRegex" "consuming usingRegex"
  "consuming csharpClassRegex" "consuming diRegex"
  by (simp_all add: goImportRegex_def javaImportRegex_def javaClassRegex_def annotationRegex_def
      fieldRegex_def usingRegex_def csharpClassRegex_def diRegex_def Plus_def Opt_def)

definition suffixWords :: "string list" where
  "suffixWords = [''Controller'', ''Service'', ''Handler'', ''Repository'', ''Manager'',
                  ''Provider'', ''Component'']"

definition capturedName :: "string \<Rightarrow> string \<Rightarrow> string option" where
  "capturedName w s =
     (let pre = take (length s - length w) s;
          nm = rev (takeWhile (\<lambda>c. \<not> isLineTerminator c) (rev pre))
      in if length w < length s
            \<and> toLowerCase (drop (length s - length w) s) = toLowerCase w
            \<and> nm \<noteq> []
         then Some nm else None)"

lemma firstSome_None: "firstSome f xs = None \<longleftrightarrow> (\<forall>x \<in> set xs. f x = None)"
  by (induction xs) (auto split: option.splits)

lemma firstSome_append:
  "firstSome f (xs @ ys) = (case firstSome f xs of Some y \<Rightarrow> Some y | None \<Rightarrow> firstSome f ys)"
  by (induction xs) (auto split: option.splits)

lemma firstSome_map: "firstSome f (map g xs) = firstSome (\<lambda>x. f (g x)) xs"
  by (induction xs) (auto split: option.splits)

lemma firstSome_single: "firstSome f [x] = f x"
  by (cases "f x") auto

lemma firstSome_skip:
  "\<forall>x \<in> set xs. f x = None \<Longrightarrow> firstSome f (xs @ y # ys) = (case f y of Some r \<Rightarrow> Some r | None \<Rightarrow> firstSome f ys)"
  by (induction xs) (auto split: option.splits)

lemma firstSome_unique:
  "\<forall>j \<in> set js. j \<noteq> j0 \<longrightarrow> f j = None \<Longrightarrow> firstSome f js = (if j0 \<in> set js then f j0 else None)"
  by (induction js) (auto split: option.splits)

lemma rxm_wordI:
  "rxm (wordI w) s c k =
     (if length w \<le> length s \<and> map lowerChar (take (length w) s) = map lowerChar w
      then k (drop (length w) s) c else None)"
proof (induction w arbitrary: s rule: wordI.induct)
  case 1
  then show ?case by (simp add: rxm.simps)
next
  case (2 x)
  then show ?case by (cases s) (auto simp: rxm.simps)
next
  case (3 x y zs)
  show ?case
  proof (cases s)
    case Nil
    then show ?thesis by (simp add: rxm.simps)
  next
    case (Cons a as)
    then show ?thesis using 3 [of as] by (auto simp: rxm.simps)
  qed
qed

fun downFrom :: "nat \<Rightarrow> nat list" where
  "downFrom 0 = [0]"
| "downFrom (Suc n) = Suc n # downFrom n"

lemma set_downFrom: "set (downFrom n) = {0..n}"
  by (induction n) auto

lemma firstSome_downFrom:
  "firstSome f (downFrom (Suc n)) =
     (case firstSome (\<lambda>j. f (Suc j)) (downFrom n) of Some r \<Rightarrow> Some r | None \<Rightarrow> f 0)"
  by (induction n) (auto split: option.splits)

lemma rxm_star_any:
  "rxm (Star (Atom AnyChar)) s c k =
     firstSome (\<lambda>j. k (drop j s) c)
       (downFrom (length (takeWhile (\<lambda>x. \<not> isLineTerminator x) s)))"
proof (induction s)
  case Nil
  show ?case by (subst rxm.simps) (simp add: rxm.simps split: option.splits)
next
  case (Cons x xs)
  show ?case
  proof (cases "isLineTerminator x")
    case True
    then show ?thesis by (subst rxm.simps) (simp add: rxm.simps(1) split: option.splits)
  next
    case False
    have "rxm (Star (Atom AnyChar)) (x # xs) c k =
        (case rxm (Star (Atom AnyChar)) xs c k of Some r \<Rightarrow> Some r | None \<Rightarrow> k (x # xs) c)"
      using False by (subst rxm.simps) (simp add: rxm.simps(1))
    then show ?thesis
      unfolding Cons.IH using False
      by (simp add: firstSome_downFrom del: downFrom.simps split: option.splits)
  qed
qed

lemma takeWhile_length_ge:
  "j \<le> length (takeWhile P xs) \<longleftrightarrow> j \<le> length xs \<and> (\<forall>x \<in> set (take j xs). P x)"
proof (induction xs arbitrary: j)
  case Nil
  then show ?case by simp
next
  case (Cons a xs)
  then show ?case by (cases j) auto
qed

lemma rxm_word_end:
  "rxm (Seq (wordI w) Eos) s' c k =
     (if length s' = length w \<and> map lowerChar s' = map lowerChar w then k [] c else None)"
proof -
  have "rxm (Seq (wordI w) Eos) s' c k =
      (if length w \<le> length s' \<and> map lowerChar (take (length w) s') = map lowerChar w
       then (if drop (length w) s' = [] then k [] c else None) else None)"
    by (simp add: rxm.simps(3,4) rxm_wordI)
  then show ?thesis by (auto simp: le_antisym)
qed

lemma rxAt_suffix:
  assumes "w \<noteq> []"
  shows "rxAt (suffixPattern w) s i =
     (let t = drop i s; n = length t - length w in
      if length w < length t \<and> map lowerChar (drop n t) = map lowerChar w
         \<and> (\<forall>x \<in> set (take n t). \<not> isLineTerminator x)
      then Some \<lparr>mstart = i, mlen = length t, mcaps = [(1, take n t)]\<rparr>
      else None)"
proof (cases "drop i s")
  case Nil
  then show ?thesis
    by (simp add: rxAt_def suffixPattern_def Plus_def rxm.simps(1,4,7))
next
  case (Cons x xs)
  define t where "t = drop i s"
  have t: "t = x # xs" using Cons by (simp add: t_def)
  define f where "f = (\<lambda>j. if length (drop j xs) = length w \<and> map lowerChar (drop j xs) = map lowerChar w
      then Some \<lparr>mstart = i, mlen = length t, mcaps = [(1, take (length t - length (drop j xs)) t)]\<rparr>
      else None)"
  define j0 where "j0 = length xs - length w"
  let ?n' = "length (takeWhile (\<lambda>x. \<not> isLineTerminator x) xs)"
  define R where "R = Seq (wordI w) Eos"
  define K0 where "K0 = (\<lambda>(s' :: string) c. Some \<lparr>mstart = i, mlen = length t - length s', mcaps = c\<rparr>)"
  have sp: "suffixPattern w = Seq (Grp 1 (Seq (Atom AnyChar) (Star (Atom AnyChar)))) R"
    by (simp add: suffixPattern_def Plus_def R_def)
  have step0: "rxAt (suffixPattern w) s i =
      (if isLineTerminator x then None
       else firstSome (\<lambda>j. rxm R (drop j xs) [(1, take (length t - length (drop j xs)) t)] K0)
              (downFrom ?n'))"
    unfolding rxAt_def t_def [symmetric] sp K0_def [symmetric]
    by (simp add: rxm.simps(1,4,7) t rxm_star_any del: downFrom.simps)
  have fj: "rxm R (drop j xs) [(1, take (length t - length (drop j xs)) t)] K0 = f j" for j
    unfolding R_def rxm_word_end f_def K0_def by simp
  have step: "rxAt (suffixPattern w) s i =
      (if isLineTerminator x then None else firstSome f (downFrom ?n'))"
    unfolding step0 fj ..
  have uniq: "\<forall>j \<in> set (downFrom ?n'). j \<noteq> j0 \<longrightarrow> f j = None"
  proof (intro ballI impI)
    fix j assume ne: "j \<noteq> j0"
    have "length xs - j \<noteq> length w"
    proof
      assume e: "length xs - j = length w"
      have "0 < length w" using assms by simp
      with e ne show False unfolding j0_def by arith
    qed
    then show "f j = None" by (simp add: f_def)
  qed
  have fs: "firstSome f (downFrom ?n') = (if j0 \<le> ?n' then f j0 else None)"
    using firstSome_unique [OF uniq] by (simp add: set_downFrom)
  have mem: "j0 \<le> ?n' \<longleftrightarrow> (\<forall>x \<in> set (take j0 xs). \<not> isLineTerminator x)"
    unfolding takeWhile_length_ge by (simp add: j0_def)
  show ?thesis
  proof (cases "length w \<le> length xs")
    case True
    then have n: "length t - length w = Suc j0" by (simp add: t j0_def)
    have l: "length (drop j0 xs) = length w" using True by (simp add: j0_def)
    have "f j0 = (if map lowerChar (drop j0 xs) = map lowerChar w
        then Some \<lparr>mstart = i, mlen = length t, mcaps = [(1, take (Suc j0) t)]\<rparr> else None)"
      unfolding f_def l using n by simp
    then show ?thesis
      unfolding step fs mem t_def [symmetric] Let_def n using True
      by (auto simp: t)
  next
    case False
    then have "f j0 = None" by (auto simp: f_def j0_def)
    then show ?thesis
      unfolding step fs t_def [symmetric] Let_def using False by (auto simp: t)
  qed
qed

lemma matchGroup1_suffix:
  assumes "w \<noteq> []"
  shows "matchGroup1 (suffixPattern w) s = capturedName w s"
proof -
  define m where "m = length s - length w"
  define pre where "pre = take m s"
  define nm where "nm = rev (takeWhile (\<lambda>c. \<not> isLineTerminator c) (rev pre))"
  define A where "A = rev (dropWhile (\<lambda>c. \<not> isLineTerminator c) (rev pre))"
  define g where "g = rxAt (suffixPattern w) s"
  have pre_split: "pre = A @ nm"
    unfolding A_def nm_def by (metis rev_append rev_rev_ident takeWhile_dropWhile_id)
  have cn: "capturedName w s =
      (if length w < length s \<and> map lowerChar (drop m s) = map lowerChar w \<and> nm \<noteq> []
       then Some nm else None)"
    by (simp add: capturedName_def Let_def m_def pre_def nm_def toLowerCase_def)
  have mg: "matchGroup1 (suffixPattern w) s =
      (case firstSome g [0..<Suc (length s)] of None \<Rightarrow> None | Some r \<Rightarrow> group r 1)"
    by (simp add: matchGroup1_def rxExec_def g_def)
  show ?thesis
  proof (cases "length w < length s \<and> map lowerChar (drop m s) = map lowerChar w")
    case False
    have "g i = None" for i
    proof (cases "length w < length s - i")
      case True
      then have "length s - i - length w + i = m" by (simp add: m_def)
      then show ?thesis
        using False True unfolding g_def rxAt_suffix [OF assms] Let_def by auto
    next
      case False
      then show ?thesis unfolding g_def rxAt_suffix [OF assms] Let_def by simp
    qed
    then have "firstSome g [0..<Suc (length s)] = None" by (simp add: firstSome_None)
    then show ?thesis using False unfolding mg cn by auto
  next
    case True
    then have mpos: "0 < m" and mle: "m \<le> length s" by (simp_all add: m_def)
    have lp: "length pre = m" using mle by (simp add: pre_def)
    have g_lt: "g i = (if \<forall>x \<in> set (drop i pre). \<not> isLineTerminator x
        then Some \<lparr>mstart = i, mlen = length s - i, mcaps = [(1, drop i pre)]\<rparr> else None)"
      if "i < m" for i
    proof -
      have a: "length w < length (drop i s)" using that by (simp add: m_def)
      have b: "length (drop i s) - length w = m - i" using that by (simp add: m_def)
      have c: "drop (m - i) (drop i s) = drop m s" using that by simp
      have d: "take (m - i) (drop i s) = drop i pre"
        unfolding pre_def by (simp add: drop_take)
      show ?thesis
        unfolding g_def rxAt_suffix [OF assms] Let_def b c d using a True by simp
    qed
    have g_ge: "g i = None" if "m \<le> i" for i
    proof -
      have "\<not> length w < length s - i" using that by (simp add: m_def)
      then show ?thesis unfolding g_def rxAt_suffix [OF assms] Let_def by simp
    qed
    have before: "g i = None" if "i < length A" for i
    proof -
      have Ane: "A \<noteq> []" using that by auto
      then have "dropWhile (\<lambda>c. \<not> isLineTerminator c) (rev pre) \<noteq> []" by (simp add: A_def)
      then have "isLineTerminator (hd (dropWhile (\<lambda>c. \<not> isLineTerminator c) (rev pre)))"
        using hd_dropWhile [of "\<lambda>c. \<not> isLineTerminator c" "rev pre"] by simp
      then have lt: "isLineTerminator (last A)"
        using Ane by (simp add: A_def last_rev)
      have "last A \<in> set (drop i A)" using that Ane
        by (metis drop_eq_Nil last_drop last_in_set not_le)
      then have "last A \<in> set (drop i pre)" using that by (simp add: pre_split)
      moreover have "i < m" using that lp by (simp add: pre_split)
      ultimately show ?thesis using lt by (auto simp: g_lt)
    qed
    show ?thesis
    proof (cases "nm = []")
      case True
      then have "length A = m" using lp by (simp add: pre_split)
      then have "g i = None" for i
        using before [of i] g_ge [of i] by (cases "i < m") auto
      then have "firstSome g [0..<Suc (length s)] = None" by (simp add: firstSome_None)
      then show ?thesis using True by (simp add: mg cn)
    next
      case False
      have "0 < length nm" using False by simp
      moreover have "length A + length nm = m" using lp by (simp add: pre_split)
      ultimately have am: "length A < m" by arith
      have "\<forall>x \<in> set nm. \<not> isLineTerminator x"
        unfolding nm_def by (auto dest: set_takeWhileD)
      then have ga: "g (length A) = Some \<lparr>mstart = length A, mlen = length s - length A,
          mcaps = [(1, nm)]\<rparr>"
        using am by (simp add: g_lt pre_split)
      have "[0..<Suc (length s)] = [0..<length A] @ length A # [Suc (length A)..<Suc (length s)]"
        using am mle by (metis le_imp_less_Suc less_le_trans order_less_imp_le upt_conv_Cons
            upt_add_eq_append le0 le_add_diff_inverse less_imp_le_nat)
      then have "firstSome g [0..<Suc (length s)] = g (length A)"
        using firstSome_skip [of "[0..<length A]" g "length A"] before ga by simp
      then show ?thesis
        using False \<open>length w < length s \<and> map lowerChar (drop m s) = map lowerChar w\<close>
        by (simp add: mg cn ga group_def)
    qed
  qed
qed

section \<open>Service names as the specification words them\<close>

definition serviceNameSpec :: "string \<Rightarrow> string" where
  "serviceNameSpec fp =
     (let stem = basenameExt fp (extname fp);
          parent = basename (dirname fp)
      in case firstSome (\<lambda>w. capturedName w stem) suffixWords of
           Some nm \<Rightarrow> nm
         | None \<Rightarrow> if parent = ''.'' then ''Root'' else parent)"

lemma firstSome_cong_set: "(\<And>x. x \<in> set xs \<Longrightarrow> f x = g x) \<Longrightarrow> firstSome f xs = firstSome g xs"
  by (induction xs) (auto split: option.splits)

lemma patterns_words: "patterns = map suffixPattern suffixWords"
  by (simp add: patterns_def suffixWords_def)

lemma extractServiceName_refines: "extractServiceName fp = serviceNameSpec fp"
proof -
  have "firstSome (\<lambda>pattern. matchGroup1 pattern s) patterns =
      firstSome (\<lambda>w. capturedName w s) suffixWords" for s
    unfolding patterns_words firstSome_map
    by (rule firstSome_cong_set) (auto simp: suffixWords_def intro!: matchGroup1_suffix)
  then show ?thesis by (simp add: extractServiceName_def serviceNameSpec_def)
qed

lemma suffixWords_exclusive:
  "\<forall>w \<in> set suffixWords. \<forall>w' \<in> set suffixWords.
     w \<noteq> w' \<longrightarrow> toLowerCase w \<noteq> drop (length w' - length w) (toLowerCase w')"
  by code_simp

lemma capturedName_suffix:
  assumes "capturedName w s \<noteq> None"
  shows "length w \<le> length s" "toLowerCase w = drop (length s - length w) (toLowerCase s)"
proof -
  have c: "length w < length s \<and> toLowerCase (drop (length s - length w) s) = toLowerCase w"
    using assms unfolding capturedName_def Let_def by (simp split: if_splits)
  then show "length w \<le> length s" by simp
  have "toLowerCase (drop (length s - length w) s) = drop (length s - length w) (toLowerCase s)"
    unfolding toLowerCase_def by (rule drop_map [symmetric])
  with c show "toLowerCase w = drop (length s - length w) (toLowerCase s)" by simp
qed

lemma capturedName_exclusive:
  assumes "w \<in> set suffixWords" "w' \<in> set suffixWords" "w \<noteq> w'"
    and "capturedName w s \<noteq> None"
  shows "capturedName w' s = None"
proof (rule ccontr)
  assume n: "capturedName w' s \<noteq> None"
  have a1: "length w \<le> length s"
    and a2: "toLowerCase w = drop (length s - length w) (toLowerCase s)"
    using capturedName_suffix [OF assms(4)] by blast+
  have b1: "length w' \<le> length s"
    and b2: "toLowerCase w' = drop (length s - length w') (toLowerCase s)"
    using capturedName_suffix [OF n] by blast+
  have x1: "toLowerCase w \<noteq> drop (length w' - length w) (toLowerCase w')"
    by (rule suffixWords_exclusive [rule_format, OF assms(1) assms(2) assms(3)])
  have x2: "toLowerCase w' \<noteq> drop (length w - length w') (toLowerCase w)"
    by (rule suffixWords_exclusive [rule_format, OF assms(2) assms(1) assms(3) [symmetric]])
  show False
  proof (cases "length w \<le> length w'")
    case True
    have e: "length w' - length w + (length s - length w') = length s - length w"
      using True b1 by arith
    have "drop (length w' - length w) (drop (length s - length w') (toLowerCase s)) =
        drop (length s - length w) (toLowerCase s)"
      by (simp only: drop_drop e)
    then have "drop (length w' - length w) (toLowerCase w') = toLowerCase w"
      by (simp only: a2 [symmetric] b2 [symmetric])
    then show False using x1 by simp
  next
    case False
    have e: "length w - length w' + (length s - length w) = length s - length w'"
      using False a1 by arith
    have "drop (length w - length w') (drop (length s - length w) (toLowerCase s)) =
        drop (length s - length w') (toLowerCase s)"
      by (simp only: drop_drop e)
    then have "drop (length w - length w') (toLowerCase w) = toLowerCase w'"
      by (simp only: a2 [symmetric] b2 [symmetric])
    then show False using x2 by simp
  qed
qed

lemma capturedName_simple:
  assumes "nm \<noteq> []" "\<forall>c \<in> set nm. \<not> isLineTerminator c" "toLowerCase sfx = toLowerCase w"
  shows "capturedName w (nm @ sfx) = Some nm"
proof -
  have l: "length sfx = length w" using assms(3) by (metis length_map toLowerCase_def)
  have tw: "takeWhile (\<lambda>c. \<not> isLineTerminator c) (rev nm) = rev nm"
    using assms(2) by (simp add: takeWhile_eq_all_conv)
  have pre: "take (length (nm @ sfx) - length w) (nm @ sfx) = nm" using l by simp
  have dr: "drop (length (nm @ sfx) - length w) (nm @ sfx) = sfx" using l by simp
  show ?thesis
    unfolding capturedName_def Let_def pre dr tw using assms(1,3) l by simp
qed

lemma serviceName_of_suffix:
  assumes "basenameExt fp (extname fp) = nm @ sfx" "nm \<noteq> []"
    "\<forall>c \<in> set nm. \<not> isLineTerminator c" "w \<in> set suffixWords"
    "toLowerCase sfx = toLowerCase w"
  shows "extractServiceName fp = nm"
proof -
  let ?s = "nm @ sfx"
  have c: "capturedName w ?s = Some nm" using assms(2,3,5) by (rule capturedName_simple)
  have "\<forall>w' \<in> set suffixWords. w' \<noteq> w \<longrightarrow> capturedName w' ?s = None"
    using capturedName_exclusive [OF assms(4)] c by auto
  then have "firstSome (\<lambda>w. capturedName w ?s) suffixWords = Some nm"
    using firstSome_unique [of suffixWords w "\<lambda>w. capturedName w ?s"] assms(4) c by simp
  then show ?thesis
    unfolding extractServiceName_refines serviceNameSpec_def Let_def assms(1) by simp
qed

lemma helpers_in_utils: "extractServiceName (d @ ''/utils/helpers.go'') = ''utils''"
proof -
  let ?p = "d @ ''/utils/helpers.go''"
  have seg: "lastSegment ?p = ''helpers.go''"
    using lastSegment_append [of "''helpers.go''" "d @ ''/utils''"] by simp
  have ext: "extname ?p = ''.go''"
    unfolding extname_def seg by code_simp
  have "length (''.go'' :: string) \<le> length ?p" "(''.go'' :: string) \<noteq> ?p" by auto
  then have stem: "basenameExt ?p ''.go'' = ''helpers''"
    unfolding basenameExt_def seg Let_def by (simp add: endsWith_def)
  have dn: "dirname ?p = d @ ''/utils''"
    using dirname_append [of "''helpers.go''" "d @ ''/utils''"] by simp
  have par: "basename (d @ ''/utils'') = ''utils''"
    using lastSegment_append [of "''utils''" d] by (simp add: basename_def)
  have none: "firstSome (\<lambda>w. capturedName w ''helpers'') suffixWords = None" by code_simp
  show ?thesis
    unfolding extractServiceName_refines serviceNameSpec_def Let_def ext stem dn par none
    by simp
qed

section \<open>Facts about the graph query and the groups\<close>

definition touchesService :: "string \<Rightarrow> FileRelationship \<Rightarrow> bool" where
  "touchesService service rel =
     (extractServiceName (sourceFile rel) = service \<or> extractServiceName (targetFile rel) = service)"

definition toGraphEdge :: "FileRelationship \<Rightarrow> GraphEdge" where
  "toGraphEdge rel =
     \<lparr>edgeFrom = basename (sourceFile rel), edgeTo = basename (targetFile rel),
      edgeType = relationType rel\<rparr>"

lemma graphStep_edges:
  "edges (foldl (graphStep q) g rels) = edges g @ map toGraphEdge (filter (touchesService q) rels)"
  by (induction rels arbitrary: g) (auto simp: graphStep_def touchesService_def toGraphEdge_def Let_def)

lemma graphStep_nodes:
  "set (nodes (foldl (graphStep q) g rels)) =
     set (nodes g) \<union> (\<Union>rel \<in> {r \<in> set rels. touchesService q r}.
                        {basename (sourceFile rel), basename (targetFile rel)})"
  by (induction rels arbitrary: g) (auto simp: graphStep_def touchesService_def setAdd_def Let_def)

lemma graphStep_distinct:
  "distinct (nodes g) \<Longrightarrow> distinct (nodes (foldl (graphStep q) g rels))"
  by (induction rels arbitrary: g) (auto simp: graphStep_def setAdd_def Let_def)

fun insertFile :: "string \<Rightarrow> string \<Rightarrow> (string \<times> string list) list \<Rightarrow> (string \<times> string list) list" where
  "insertFile n f [] = [(n, [f])]"
| "insertFile n f ((k, fs) # g) = (if k = n then (k, fs @ [f]) # g else (k, fs) # insertFile n f g)"

lemma update_new: "n \<notin> fst ` set g \<Longrightarrow> AList.update n v g = g @ [(n, v)]"
  by (induction g) auto

lemma update_last: "n \<notin> fst ` set g \<Longrightarrow> AList.update n v (g @ [(n, w)]) = g @ [(n, v)]"
  by (induction g) auto

lemma map_of_new: "n \<notin> fst ` set g \<Longrightarrow> map_of (g @ [(n, w)]) n = Some w"
  by (induction g) auto

lemma insertFile_new: "n \<notin> fst ` set g \<Longrightarrow> insertFile n f g = g @ [(n, [f])]"
  by (induction g) auto

lemma insertFile_old: "map_of g n = Some fs \<Longrightarrow> AList.update n (fs @ [f]) g = insertFile n f g"
  by (induction g) (auto split: if_splits)

lemma addToGroup_insertFile: "addToGroup g f = insertFile (extractServiceName f) f g"
proof (cases "extractServiceName f \<in> fst ` set g")
  case True
  then obtain fs where "map_of g (extractServiceName f) = Some fs"
    by (metis map_of_eq_None_iff not_Some_eq)
  with True show ?thesis
    by (simp add: addToGroup_def Let_def insertFile_old)
next
  case False
  let ?n = "extractServiceName f"
  have g1: "AList.update ?n [] g = g @ [(?n, [])]" using False by (rule update_new)
  have "addToGroup g f =
      (case map_of (g @ [(?n, [])]) ?n of
         None \<Rightarrow> g @ [(?n, [])]
       | Some files \<Rightarrow> AList.update ?n (files @ [f]) (g @ [(?n, [])]))"
    unfolding addToGroup_def Let_def g1 using False by simp
  also have "\<dots> = g @ [(?n, [f])]"
    unfolding map_of_new [OF False] using update_last [OF False] by simp
  finally show ?thesis using insertFile_new [OF False] by simp
qed

definition filesOf :: "(string \<times> string list) list \<Rightarrow> string \<Rightarrow> string list" where
  "filesOf g k = (case map_of g k of None \<Rightarrow> [] | Some fs \<Rightarrow> fs)"

lemma insertFile_keys:
  "map fst (insertFile n f g) = (if n \<in> fst ` set g then map fst g else map fst g @ [n])"
  by (induction g) force+

lemma insertFile_filesOf:
  "filesOf (insertFile n f g) k = (if k = n then filesOf g n @ [f] else filesOf g k)"
  by (induction g) (auto simp: filesOf_def)

lemma groups_distinct:
  "distinct (map fst g) \<Longrightarrow> distinct (map fst (foldl addToGroup g ks))"
  by (induction ks arbitrary: g) (auto simp: addToGroup_insertFile insertFile_keys)

lemma insertFile_key_set: "set (map fst (insertFile n f g)) = insert n (set (map fst g))"
  unfolding insertFile_keys by auto

lemma groups_keys:
  "set (map fst (foldl addToGroup g ks)) = set (map fst g) \<union> extractServiceName ` set ks"
proof (induction ks arbitrary: g)
  case Nil
  then show ?case by simp
next
  case (Cons a ks)
  have "set (map fst (addToGroup g a)) = insert (extractServiceName a) (set (map fst g))"
    using insertFile_key_set [of "extractServiceName a" a g] addToGroup_insertFile [of g a]
    by simp
  then show ?case
    using Cons.IH [of "addToGroup g a"] by auto
qed

lemma groups_filesOf:
  "filesOf (foldl addToGroup g ks) k = filesOf g k @ filter (\<lambda>x. extractServiceName x = k) ks"
  by (induction ks arbitrary: g) (auto simp: addToGroup_insertFile insertFile_filesOf)

lemma groupFilesByService_entry:
  assumes "(k, fs) \<in> set (groupFilesByService st)"
  shows "fs = filter (\<lambda>x. extractServiceName x = k) (map fst (codeModules st))"
    and "k \<in> extractServiceName ` fst ` set (codeModules st)"
proof -
  have d: "distinct (map fst (groupFilesByService st))"
    unfolding groupFilesByService_def by (rule groups_distinct) simp
  then have "map_of (groupFilesByService st) k = Some fs" using assms by simp
  then have "filesOf (groupFilesByService st) k = fs" by (simp add: filesOf_def)
  then show "fs = filter (\<lambda>x. extractServiceName x = k) (map fst (codeModules st))"
    unfolding groupFilesByService_def groups_filesOf by (simp add: filesOf_def)
  have "k \<in> set (map fst (groupFilesByService st))" using assms by force
  then show "k \<in> extractServiceName ` fst ` set (codeModules st)"
    unfolding groupFilesByService_def groups_keys by simp
qed

lemma groupFilesByService_names:
  "distinct (map fst (groupFilesByService st))"
  "set (map fst (groupFilesByService st)) = extractServiceName ` fst ` set (codeModules st)"
  unfolding groupFilesByService_def groups_keys
  by (simp_all add: groups_distinct image_image)

section \<open>Facts about the relationship extractor\<close>

definition resolveImport :: "env \<Rightarrow> language \<Rightarrow> string \<Rightarrow> string \<Rightarrow> error + string option" where
  "resolveImport env lang fp ref =
     (case lang of
        Go \<Rightarrow> resolveGoImport env fp ref
      | Java \<Rightarrow> resolveJavaImport env fp ref
      | CSharp \<Rightarrow> resolveCSharpUsing env fp ref)"

definition edgeResolved :: "env \<Rightarrow> ContextAnalyzer \<Rightarrow> string \<Rightarrow> language \<Rightarrow> FileRelationship \<Rightarrow> bool" where
  "edgeResolved env st fp lang e =
     (sourceFile e = fp \<and> targetFile e \<noteq> [] \<and>
      (if relationType e = Import
       then resolveImport env lang fp (details e) = Inr (Some (targetFile e))
       else \<exists>cn. findClassDefinition st fp cn = Some (targetFile e)))"

definition appended :: "(FileRelationship \<Rightarrow> bool) \<Rightarrow> ContextAnalyzer \<Rightarrow> ContextAnalyzer \<Rightarrow> bool" where
  "appended P st st' =
     (codeModules st' = codeModules st \<and> crossReferences st' = crossReferences st \<and>
      (\<exists>new. fileRelationships st' = fileRelationships st @ new \<and> (\<forall>e \<in> set new. P e)))"

lemma appended_refl: "appended P st st"
  by (simp add: appended_def)

lemma appended_trans: "appended P a b \<Longrightarrow> appended P b c \<Longrightarrow> appended P a c"
  unfolding appended_def by fastforce

lemma findClassDefinition_table:
  "codeModules s = codeModules st \<Longrightarrow> findClassDefinition s b c = findClassDefinition st b c"
  by (simp add: findClassDefinition_def)

lemma pushIfResolved_appended:
  assumes "\<And>t. resolved = Some t \<Longrightarrow> t \<noteq> [] \<Longrightarrow>
             P \<lparr>sourceFile = fp, targetFile = t, relationType = rtype, details = det\<rparr>"
  shows "appended P st (pushIfResolved st fp resolved rtype det)"
  using assms by (auto simp: appended_def pushIfResolved_def split: option.splits)

lemma forEach_appended:
  assumes step: "\<And>s x s'. codeModules s = cm \<Longrightarrow> body s x = Inr s' \<Longrightarrow> appended P s s'"
  shows "codeModules st = cm \<Longrightarrow> forEach body xs st = Inr st' \<Longrightarrow> appended P st st'"
proof (induction xs arbitrary: st)
  case Nil
  then show ?case by (simp add: appended_refl)
next
  case (Cons x xs)
  from Cons.prems(2) obtain s1 where s1: "body st x = Inr s1" "forEach body xs s1 = Inr st'"
    by (auto split: sum.splits)
  have a: "appended P st s1" using step Cons.prems(1) s1(1) by blast
  then have "codeModules s1 = cm" using Cons.prems(1) by (simp add: appended_def)
  then have "appended P s1 st'" using Cons.IH s1(2) by blast
  with a show ?case by (rule appended_trans)
qed

lemma foldl_appended:
  assumes step: "\<And>s x. codeModules s = cm \<Longrightarrow> appended P s (f s x)"
  shows "codeModules st = cm \<Longrightarrow> appended P st (foldl f st xs)"
proof (induction xs arbitrary: st)
  case Nil
  then show ?case by (simp add: appended_refl)
next
  case (Cons x xs)
  have a: "appended P st (f st x)" using step Cons.prems by blast
  then have "codeModules (f st x) = cm" using Cons.prems by (simp add: appended_def)
  then have "appended P (f st x) (foldl f (f st x) xs)" by (rule Cons.IH)
  with a show ?case by (simp add: appended_trans)
qed

lemma edgeResolved_table:
  "codeModules s = codeModules st \<Longrightarrow> edgeResolved env s fp lang e = edgeResolved env st fp lang e"
  by (simp add: edgeResolved_def findClassDefinition_def)

lemma class_edge:
  assumes "codeModules s = codeModules st" "rtype \<noteq> Import"
  shows "appended (edgeResolved env st fp lang) s
           (pushIfResolved s fp (findClassDefinition s fp cn) rtype det)"
proof (rule pushIfResolved_appended)
  fix t assume "findClassDefinition s fp cn = Some t" "t \<noteq> []"
  then show "edgeResolved env st fp lang
      \<lparr>sourceFile = fp, targetFile = t, relationType = rtype, details = det\<rparr>"
    using assms by (auto simp: edgeResolved_def findClassDefinition_def)
qed

lemma import_edge:
  assumes "resolveImport env lang fp ref = Inr r"
  shows "appended (edgeResolved env st fp lang) s (pushIfResolved s fp r Import ref)"
proof (rule pushIfResolved_appended)
  fix t assume "r = Some t" "t \<noteq> []"
  then show "edgeResolved env st fp lang
      \<lparr>sourceFile = fp, targetFile = t, relationType = Import, details = ref\<rparr>"
    using assms by (simp add: edgeResolved_def)
qed

lemma goImportLine_appended:
  "goImportLine env fp s l = Inr s' \<Longrightarrow> appended (edgeResolved env st fp Go) s s'"
  unfolding goImportLine_def Let_def
  by (auto split: if_splits sum.splits intro!: import_edge appended_refl simp: resolveImport_def)

lemma goImportMatch_appended:
  assumes "codeModules s = codeModules st" "goImportMatch env fp s m = Inr s'"
  shows "appended (edgeResolved env st fp Go) s s'"
proof -
  have "\<And>ls. forEach (goImportLine env fp) ls s = Inr s' \<Longrightarrow> appended (edgeResolved env st fp Go) s s'"
    by (rule forEach_appended [where cm = "codeModules st"]) (auto intro: goImportLine_appended assms)
  then show ?thesis
    using assms(2) unfolding goImportMatch_def Let_def
    by (auto split: option.splits if_splits intro: appended_refl)
qed

lemma analyzeGo_appended:
  assumes "analyzeGoRelationships env st fp content = Inr st'"
  shows "appended (edgeResolved env st fp Go) st st'"
  using assms unfolding analyzeGoRelationships_def
  by (rule forEach_appended [where cm = "codeModules st", rotated 2])
     (auto intro: goImportMatch_appended)

lemma javaImportMatch_appended:
  "javaImportMatch env fp s m = Inr s' \<Longrightarrow> appended (edgeResolved env st fp Java) s s'"
  unfolding javaImportMatch_def Let_def
  by (auto split: option.splits if_splits sum.splits intro!: import_edge appended_refl
      simp: resolveImport_def)

lemma javaClassMatch_appended:
  assumes "codeModules s = codeModules st"
  shows "appended (edgeResolved env st fp Java) s (javaClassMatch fp s m)"
proof -
  let ?P = "edgeResolved env st fp Java"
  define s1 where "s1 = (case group m 2 of None \<Rightarrow> s
      | Some extendsClass \<Rightarrow> if extendsClass = [] then s
          else pushIfResolved s fp (findClassDefinition s fp extendsClass) Extends
                 (groupText m 1 @ '' extends '' @ extendsClass))"
  have a: "appended ?P s s1"
    unfolding s1_def using assms
    by (auto split: option.splits intro: appended_refl class_edge)
  then have c1: "codeModules s1 = codeModules st" using assms by (simp add: appended_def)
  have b: "appended ?P s1 (foldl (javaImplements fp cn) s1 is)" for cn "is"
    using c1
    by (rule foldl_appended [where cm = "codeModules st", rotated])
       (auto simp: javaImplements_def intro: class_edge)
  have "appended ?P s1 (javaClassMatch fp s m)"
    unfolding javaClassMatch_def Let_def s1_def [symmetric]
    using b by (auto split: option.splits intro: appended_refl)
  with a show ?thesis by (rule appended_trans)
qed

lemma findServiceDependencies_appended:
  assumes "codeModules s = codeModules st"
  shows "appended (edgeResolved env st fp Java) s (findServiceDependencies s fp content ann)"
  unfolding findServiceDependencies_def using assms
  by (rule foldl_appended [where cm = "codeModules st", rotated])
     (auto simp: autowiredField_def Let_def intro: class_edge)

lemma annotationMatch_appended:
  assumes "codeModules s = codeModules st"
  shows "appended (edgeResolved env st fp Java) s (annotationMatch fp content s m)"
  unfolding annotationMatch_def Let_def
  using findServiceDependencies_appended [OF assms] by (auto intro: appended_refl)

lemma analyzeJava_appended:
  assumes "analyzeJavaRelationships env st fp content = Inr st'"
  shows "appended (edgeResolved env st fp Java) st st'"
proof -
  let ?P = "edgeResolved env st fp Java"
  from assms obtain s1 where
    s1: "forEach (javaImportMatch env fp) (rxExecAll javaImportRegex content 0) st = Inr s1"
    and st': "st' = foldl (annotationMatch fp content)
        (foldl (javaClassMatch fp) s1 (rxExecAll javaClassRegex content 0))
        (rxExecAll annotationRegex content 0)"
    unfolding analyzeJavaRelationships_def Let_def by (auto split: sum.splits)
  have a: "appended ?P st s1"
    using s1 by (rule forEach_appended [where cm = "codeModules st", rotated 2])
      (auto intro: javaImportMatch_appended)
  then have c1: "codeModules s1 = codeModules st" by (simp add: appended_def)
  let ?s2 = "foldl (javaClassMatch fp) s1 (rxExecAll javaClassRegex content 0)"
  have b: "appended ?P s1 ?s2"
    using c1 by (rule foldl_appended [where cm = "codeModules st", rotated])
      (auto intro: javaClassMatch_appended)
  then have c2: "codeModules ?s2 = codeModules st" using c1 by (simp add: appended_def)
  have c: "appended ?P ?s2 st'"
    unfolding st' using c2 by (rule foldl_appended [where cm = "codeModules st", rotated])
      (auto intro: annotationMatch_appended)
  from a b c show ?thesis by (blast intro: appended_trans)
qed

lemma usingMatch_appended:
  "usingMatch env fp s m = Inr s' \<Longrightarrow> appended (edgeResolved env st fp CSharp) s s'"
  unfolding usingMatch_def Let_def
  by (auto split: option.splits if_splits sum.splits intro!: import_edge appended_refl
      simp: resolveImport_def)

lemma csharpClassMatch_appended:
  assumes "codeModules s = codeModules st"
  shows "appended (edgeResolved env st fp CSharp) s (csharpClassMatch fp s m)"
proof -
  have "appended (edgeResolved env st fp CSharp) s (foldl (csharpBaseType fp cn) s ts)" for cn ts
    using assms
    by (rule foldl_appended [where cm = "codeModules st", rotated])
       (auto simp: csharpBaseType_def Let_def intro: class_edge)
  then show ?thesis
    unfolding csharpClassMatch_def Let_def
    by (auto split: option.splits intro: appended_refl)
qed

lemma diMatch_appended:
  assumes "codeModules s = codeModules st"
  shows "appended (edgeResolved env st fp CSharp) s (diMatch fp s m)"
  unfolding diMatch_def Let_def using assms by (auto intro: class_edge)

lemma analyzeCSharp_appended:
  assumes "analyzeCSharpRelationships env st fp content = Inr st'"
  shows "appended (edgeResolved env st fp CSharp) st st'"
proof -
  let ?P = "edgeResolved env st fp CSharp"
  from assms obtain s1 where
    s1: "forEach (usingMatch env fp) (rxExecAll usingRegex content 0) st = Inr s1"
    and st': "st' = foldl (diMatch fp)
        (foldl (csharpClassMatch fp) s1 (rxExecAll csharpClassRegex content 0))
        (rxExecAll diRegex content 0)"
    unfolding analyzeCSharpRelationships_def Let_def by (auto split: sum.splits)
  have a: "appended ?P st s1"
    using s1 by (rule forEach_appended [where cm = "codeModules st", rotated 2])
      (auto intro: usingMatch_appended)
  then have c1: "codeModules s1 = codeModules st" by (simp add: appended_def)
  let ?s2 = "foldl (csharpClassMatch fp) s1 (rxExecAll csharpClassRegex content 0)"
  have b: "appended ?P s1 ?s2"
    using c1 by (rule foldl_appended [where cm = "codeModules st", rotated])
      (auto intro: csharpClassMatch_appended)
  then have c2: "codeModules ?s2 = codeModules st" using c1 by (simp add: appended_def)
  have c: "appended ?P ?s2 st'"
    unfolding st' using c2 by (rule foldl_appended [where cm = "codeModules st", rotated])
      (auto intro: diMatch_appended)
  from a b c show ?thesis by (blast intro: appended_trans)
qed

lemma findRelationshipsForFile_appended:
  assumes "findRelationshipsForFile env st fp m = Inr st'"
  shows "appended (edgeResolved env st fp (language m)) st st'"
  using assms unfolding findRelationshipsForFile_def
  by (auto split: option.splits language.splits
      intro: analyzeGo_appended analyzeJava_appended analyzeCSharp_appended)

lemma appended_mono: "appended P a b \<Longrightarrow> (\<And>e. P e \<Longrightarrow> Q e) \<Longrightarrow> appended Q a b"
  unfolding appended_def by blast

text \<open>Where a resolved target comes from.\<close>

lemma findClassDefinition_key:
  "findClassDefinition st b cn = Some t \<Longrightarrow> t \<in> fst ` set (codeModules st)"
  unfolding findClassDefinition_def
  by (auto simp: find_Some_iff image_iff) (metis fst_conv nth_mem)

lemma find_Some_holds: "find P xs = Some x \<Longrightarrow> P x \<and> x \<in> set xs"
  by (induction xs) (auto split: if_splits)

lemma resolveJavaImport_exists: "resolveJavaImport env fp ref = Inr (Some t) \<Longrightarrow> pathExists env t"
  unfolding resolveJavaImport_def Let_def
  by (auto split: sum.splits option.splits if_splits dest: find_Some_holds)

lemma resolveCSharpUsing_exists: "resolveCSharpUsing env fp ref = Inr (Some t) \<Longrightarrow> pathExists env t"
  unfolding resolveCSharpUsing_def Let_def
  by (auto split: sum.splits option.splits if_splits dest: find_Some_holds)

lemma resolveGoImport_listed:
  "resolveGoImport env fp ref = Inr (Some t) \<Longrightarrow>
     \<exists>d files g. pathExists env d \<and> readdir env d = Some files \<and> g \<in> set files \<and> t = pathJoin [d, g]"
  unfolding resolveGoImport_def Let_def
  by (auto split: sum.splits option.splits if_splits dest!: find_Some_holds)

text \<open>Earlier relationships do not influence a run.\<close>

definition withEarlier :: "FileRelationship list \<Rightarrow> ContextAnalyzer \<Rightarrow> ContextAnalyzer" where
  "withEarlier r st = st\<lparr>fileRelationships := r @ fileRelationships st\<rparr>"

definition liftE :: "('a \<Rightarrow> 'b) \<Rightarrow> error + 'a \<Rightarrow> error + 'b" where
  "liftE f x = (case x of Inl e \<Rightarrow> Inl e | Inr a \<Rightarrow> Inr (f a))"

lemma pushIfResolved_withEarlier:
  "pushIfResolved (withEarlier r st) fp res rt det = withEarlier r (pushIfResolved st fp res rt det)"
  by (simp add: pushIfResolved_def withEarlier_def split: option.splits)

lemma findClassDefinition_withEarlier:
  "findClassDefinition (withEarlier r st) b cn = findClassDefinition st b cn"
  by (simp add: findClassDefinition_def withEarlier_def)

lemma forEach_withEarlier:
  assumes "\<And>s x. body (withEarlier r s) x = liftE (withEarlier r) (body s x)"
  shows "forEach body xs (withEarlier r st) = liftE (withEarlier r) (forEach body xs st)"
  by (induction xs arbitrary: st) (auto simp: assms liftE_def split: sum.splits)

lemma foldl_withEarlier:
  assumes "\<And>s x. f (withEarlier r s) x = withEarlier r (f s x)"
  shows "foldl f (withEarlier r st) xs = withEarlier r (foldl f st xs)"
  by (induction xs arbitrary: st) (auto simp: assms)

lemma goImportLine_withEarlier:
  "goImportLine env fp (withEarlier r s) l = liftE (withEarlier r) (goImportLine env fp s l)"
  by (simp add: goImportLine_def Let_def liftE_def pushIfResolved_withEarlier split: sum.splits)

lemma goImportMatch_withEarlier:
  "goImportMatch env fp (withEarlier r s) m = liftE (withEarlier r) (goImportMatch env fp s m)"
  unfolding goImportMatch_def Let_def
  by (simp add: forEach_withEarlier goImportLine_withEarlier split: option.splits)
     (simp add: liftE_def)

lemma analyzeGo_withEarlier:
  "analyzeGoRelationships env (withEarlier r st) fp c =
     liftE (withEarlier r) (analyzeGoRelationships env st fp c)"
  unfolding analyzeGoRelationships_def
  by (rule forEach_withEarlier) (rule goImportMatch_withEarlier)

lemma javaImportMatch_withEarlier:
  "javaImportMatch env fp (withEarlier r s) m = liftE (withEarlier r) (javaImportMatch env fp s m)"
  by (simp add: javaImportMatch_def Let_def liftE_def pushIfResolved_withEarlier
      split: sum.splits option.splits)

lemma javaClassMatch_withEarlier:
  "javaClassMatch fp (withEarlier r s) m = withEarlier r (javaClassMatch fp s m)"
proof -
  have "foldl (javaImplements fp cn) (withEarlier r s1) is =
      withEarlier r (foldl (javaImplements fp cn) s1 is)" for cn s1 "is"
    by (rule foldl_withEarlier)
       (simp add: javaImplements_def pushIfResolved_withEarlier findClassDefinition_withEarlier)
  then show ?thesis
    unfolding javaClassMatch_def Let_def
    by (simp add: pushIfResolved_withEarlier findClassDefinition_withEarlier split: option.splits)
qed

lemma findServiceDependencies_withEarlier:
  "findServiceDependencies (withEarlier r s) fp c a = withEarlier r (findServiceDependencies s fp c a)"
  unfolding findServiceDependencies_def
  by (rule foldl_withEarlier)
     (simp add: autowiredField_def Let_def pushIfResolved_withEarlier findClassDefinition_withEarlier)

lemma annotationMatch_withEarlier:
  "annotationMatch fp c (withEarlier r s) m = withEarlier r (annotationMatch fp c s m)"
  by (simp add: annotationMatch_def Let_def findServiceDependencies_withEarlier)

lemma analyzeJava_withEarlier:
  "analyzeJavaRelationships env (withEarlier r st) fp c =
     liftE (withEarlier r) (analyzeJavaRelationships env st fp c)"
proof -
  have a: "forEach (javaImportMatch env fp) ms (withEarlier r st) =
      liftE (withEarlier r) (forEach (javaImportMatch env fp) ms st)" for ms
    by (rule forEach_withEarlier) (rule javaImportMatch_withEarlier)
  have b: "foldl (javaClassMatch fp) (withEarlier r s) ms =
      withEarlier r (foldl (javaClassMatch fp) s ms)" for s ms
    by (rule foldl_withEarlier) (rule javaClassMatch_withEarlier)
  have c: "foldl (annotationMatch fp c) (withEarlier r s) ms =
      withEarlier r (foldl (annotationMatch fp c) s ms)" for s ms
    by (rule foldl_withEarlier) (rule annotationMatch_withEarlier)
  show ?thesis
    unfolding analyzeJavaRelationships_def Let_def a
    by (simp add: liftE_def b c split: sum.splits)
qed

lemma usingMatch_withEarlier:
  "usingMatch env fp (withEarlier r s) m = liftE (withEarlier r) (usingMatch env fp s m)"
  by (simp add: usingMatch_def Let_def liftE_def pushIfResolved_withEarlier
      split: sum.splits option.splits)

lemma csharpClassMatch_withEarlier:
  "csharpClassMatch fp (withEarlier r s) m = withEarlier r (csharpClassMatch fp s m)"
proof -
  have "foldl (csharpBaseType fp cn) (withEarlier r s1) ts =
      withEarlier r (foldl (csharpBaseType fp cn) s1 ts)" for cn s1 ts
    by (rule foldl_withEarlier)
       (simp add: csharpBaseType_def Let_def pushIfResolved_withEarlier
          findClassDefinition_withEarlier)
  then show ?thesis
    unfolding csharpClassMatch_def Let_def by (simp split: option.splits)
qed

lemma diMatch_withEarlier:
  "diMatch fp (withEarlier r s) m = withEarlier r (diMatch fp s m)"
  by (simp add: diMatch_def Let_def pushIfResolved_withEarlier findClassDefinition_withEarlier)

lemma analyzeCSharp_withEarlier:
  "analyzeCSharpRelationships env (withEarlier r st) fp c =
     liftE (withEarlier r) (analyzeCSharpRelationships env st fp c)"
proof -
  have a: "forEach (usingMatch env fp) ms (withEarlier r st) =
      liftE (withEarlier r) (forEach (usingMatch env fp) ms st)" for ms
    by (rule forEach_withEarlier) (rule usingMatch_withEarlier)
  have b: "foldl (csharpClassMatch fp) (withEarlier r s) ms =
      withEarlier r (foldl (csharpClassMatch fp) s ms)" for s ms
    by (rule foldl_withEarlier) (rule csharpClassMatch_withEarlier)
  have c: "foldl (diMatch fp) (withEarlier r s) ms =
      withEarlier r (foldl (diMatch fp) s ms)" for s ms
    by (rule foldl_withEarlier) (rule diMatch_withEarlier)
  show ?thesis
    unfolding analyzeCSharpRelationships_def Let_def a
    by (simp add: liftE_def b c split: sum.splits)
qed

lemma findRelationshipsForFile_withEarlier:
  "findRelationshipsForFile env (withEarlier r st) fp m =
     liftE (withEarlier r) (findRelationshipsForFile env st fp m)"
  unfolding findRelationshipsForFile_def
  by (simp add: analyzeGo_withEarlier analyzeJava_withEarlier analyzeCSharp_withEarlier
      split: option.splits language.splits) (simp add: liftE_def)

section \<open>Facts about a whole pass and about the contexts\<close>

lemma forEach_appended_mem:
  assumes step: "\<And>s x s'. x \<in> set xs \<Longrightarrow> codeModules s = cm \<Longrightarrow> body s x = Inr s' \<Longrightarrow> appended P s s'"
  shows "codeModules st = cm \<Longrightarrow> forEach body xs st = Inr st' \<Longrightarrow> appended P st st'"
  using step
proof (induction xs arbitrary: st)
  case Nil
  then show ?case by (simp add: appended_refl)
next
  case (Cons x xs)
  from Cons.prems(2) obtain s1 where s1: "body st x = Inr s1" "forEach body xs s1 = Inr st'"
    by (auto split: sum.splits)
  have a: "appended P st s1" using Cons.prems(3) [of x st s1] Cons.prems(1) s1(1) by simp
  then have "codeModules s1 = cm" using Cons.prems(1) by (simp add: appended_def)
  then have "appended P s1 st'" using s1(2) Cons.prems(3) by (intro Cons.IH) auto
  with a show ?case by (rule appended_trans)
qed

definition edgeOfTable :: "env \<Rightarrow> ContextAnalyzer \<Rightarrow> FileRelationship \<Rightarrow> bool" where
  "edgeOfTable env st e =
     (\<exists>(fp, m) \<in> set (codeModules st). edgeResolved env st fp (language m) e)"

lemma analyzeFileRelationships_appended:
  assumes "analyzeFileRelationships env st = Inr st'"
  shows "appended (edgeOfTable env st) st st'"
proof -
  have step: "appended (edgeOfTable env st) s s'"
    if "x \<in> set (codeModules st)" "codeModules s = codeModules st"
      "(case x of (fp, m) \<Rightarrow> findRelationshipsForFile env s fp m) = Inr s'" for s x s'
  proof -
    obtain fp m where x: "x = (fp, m)" by (cases x)
    have "appended (edgeResolved env s fp (language m)) s s'"
      using that(3) x by (simp add: findRelationshipsForFile_appended)
    then show ?thesis
    proof (rule appended_mono)
      fix e assume "edgeResolved env s fp (language m) e"
      then have "edgeResolved env st fp (language m) e"
        using edgeResolved_table [OF that(2)] by simp
      then show "edgeOfTable env st e"
        unfolding edgeOfTable_def using that(1) x by blast
    qed
  qed
  show ?thesis
    using assms unfolding analyzeFileRelationships_def
    by (rule forEach_appended_mem [where cm = "codeModules st", rotated 2]) (auto intro: step)
qed

lemma analyzeFileRelationships_withEarlier:
  "analyzeFileRelationships env (withEarlier r st) =
     liftE (withEarlier r) (analyzeFileRelationships env st)"
proof -
  have c: "codeModules (withEarlier r st) = codeModules st" by (simp add: withEarlier_def)
  show ?thesis
    unfolding analyzeFileRelationships_def c
    by (rule forEach_withEarlier) (auto simp: findRelationshipsForFile_withEarlier)
qed

lemma contextStep_fold:
  "foldl (contextStep st b) (cs, pf) G =
     (cs @ map (\<lambda>(n, fs). createServiceContext st n b fs) G, pf @ concat (map snd G))"
  by (induction G arbitrary: cs pf) (auto simp: contextStep_def)

lemma insertFile_mset:
  "mset (concat (map snd (insertFile n f g))) = mset (concat (map snd g)) + {#f#}"
  by (induction g) auto

lemma groups_mset:
  "mset (concat (map snd (foldl addToGroup g ks))) = mset (concat (map snd g)) + mset ks"
  by (induction ks arbitrary: g) (auto simp: addToGroup_insertFile insertFile_mset)

lemma groupFilesByService_mset:
  "mset (concat (map snd (groupFilesByService st))) = mset (map fst (codeModules st))"
  by (simp add: groupFilesByService_def groups_mset)

lemma groupIntoServiceContexts_eq:
  "groupIntoServiceContexts st b =
     map (\<lambda>(n, fs). createServiceContext st n b fs) (groupFilesByService st)"
proof -
  have "set (concat (map snd (groupFilesByService st))) = set (map fst (codeModules st))"
    using groupFilesByService_mset [of st] by (metis set_mset_mset)
  then have "filter (\<lambda>file. file \<notin> set (concat (map snd (groupFilesByService st))))
      (map fst (codeModules st)) = []"
    by (simp add: filter_empty_conv)
  then show ?thesis
    unfolding groupIntoServiceContexts_def Let_def contextStep_fold by simp
qed

lemma addModule_serviceName: "serviceName (addModule st ctx f) = serviceName ctx"
  by (simp add: addModule_def Let_def split: option.splits)

lemma foldl_addModule_serviceName: "serviceName (foldl (addModule st) ctx fs) = serviceName ctx"
  by (induction fs arbitrary: ctx) (simp_all add: addModule_serviceName)

lemma createServiceContext_serviceName: "serviceName (createServiceContext st n b fs) = n"
  by (simp add: createServiceContext_def Let_def foldl_addModule_serviceName emptyContext_def)

lemma createServiceContext_relationships:
  "relationships (createServiceContext st n b fs) =
     filter (\<lambda>rel. sourceFile rel \<in> set fs \<or> targetFile rel \<in> set fs) (fileRelationships st)"
  by (simp add: createServiceContext_def Let_def)

lemma contexts_names:
  "map serviceName (groupIntoServiceContexts st b) = map fst (groupFilesByService st)"
  unfolding groupIntoServiceContexts_eq
  by (simp add: createServiceContext_serviceName case_prod_unfold comp_def)

lemma context_files:
  assumes "c \<in> set (groupIntoServiceContexts st b)"
  shows "relationships c =
     filter (\<lambda>rel. (sourceFile rel \<in> fst ` set (codeModules st) \<and>
                      extractServiceName (sourceFile rel) = serviceName c)
                  \<or> (targetFile rel \<in> fst ` set (codeModules st) \<and>
                      extractServiceName (targetFile rel) = serviceName c))
       (fileRelationships st)"
proof -
  from assms obtain n fs where nf: "(n, fs) \<in> set (groupFilesByService st)"
    and c: "c = createServiceContext st n b fs"
    unfolding groupIntoServiceContexts_eq by auto
  have fs: "fs = filter (\<lambda>x. extractServiceName x = n) (map fst (codeModules st))"
    using groupFilesByService_entry(1) [OF nf] .
  have n: "serviceName c = n" by (simp add: c createServiceContext_serviceName)
  show ?thesis
    unfolding c createServiceContext_relationships
    by (rule filter_cong) (auto simp: fs createServiceContext_serviceName)
qed

definition memberFiles :: "ContextAnalyzer \<Rightarrow> string \<Rightarrow> string list" where
  "memberFiles st service =
     filter (\<lambda>fp. extractServiceName fp = service) (map fst (codeModules st))"

section \<open>Facts about the parse phase and the buckets\<close>


lemma update_key_set: "fst ` set (AList.update k v al) = insert k (fst ` set al)"
  by (induction al) auto


lemma parseEach_unchanged:
  "fileRelationships (parseEach env fs st) = fileRelationships st"
  "crossReferences (parseEach env fs st) = crossReferences st"
  by (induction fs arbitrary: st) (auto split: option.splits)

lemma parseEach_keys:
  "fst ` set (codeModules (parseEach env fs st)) =
     fst ` set (codeModules st) \<union> {f \<in> set fs. parseFile env f \<noteq> None}"
  by (induction fs arbitrary: st) (auto split: option.splits simp: update_key_set)



definition contextModules :: "ServiceContext \<Rightarrow> CodeModule list" where
  "contextModules c =
     controllers c @ services c @ models c @ repositories c @ configurations c @
     utilities c @ tests c"




lemma contextModules_relationships [simp]:
  "contextModules (c\<lparr>relationships := r\<rparr>) = contextModules c"
  by (simp add: contextModules_def)

lemma contextModules_empty [simp]: "contextModules (emptyContext n b) = []"
  by (simp add: contextModules_def emptyContext_def)











section \<open>Where a resolved target comes from\<close>



definition onDisk :: "env \<Rightarrow> FileRelationship \<Rightarrow> bool" where
  "onDisk env e =
     (pathExists env (targetFile e)
      \<or> (let d = pathResolve (cwd env) [dirname (sourceFile e), details e] in
          pathExists env d \<and>
          (case readdir env d of
             None \<Rightarrow> False
           | Some files \<Rightarrow> \<exists>g \<in> set files. targetFile e = pathJoin [d, g])))"

lemma resolveGoImport_entry:
  assumes "resolveGoImport env fp ref = Inr (Some t)"
  shows "pathExists env (pathResolve (cwd env) [dirname fp, ref])"
    and "\<exists>files. readdir env (pathResolve (cwd env) [dirname fp, ref]) = Some files
           \<and> (\<exists>g \<in> set files. t = pathJoin [pathResolve (cwd env) [dirname fp, ref], g])"
proof -
  let ?d = "pathResolve (cwd env) [dirname fp, ref]"
  from assms show "pathExists env ?d"
    unfolding resolveGoImport_def Let_def by (simp split: if_splits)
  from assms obtain files where f: "readdir env ?d = Some files"
    unfolding resolveGoImport_def Let_def by (simp split: if_splits option.splits)
  from assms f obtain g where "find (\<lambda>f. endsWith f ''.go'') files = Some g" "t = pathJoin [?d, g]"
    unfolding resolveGoImport_def Let_def by (auto split: if_splits option.splits)
  then have "g \<in> set files" "t = pathJoin [?d, g]" by (auto dest: find_Some_holds)
  with f show "\<exists>files. readdir env ?d = Some files \<and> (\<exists>g \<in> set files. t = pathJoin [?d, g])"
    by blast
qed

lemma edgeResolved_target:
  assumes "edgeResolved env st fp lang e"
  shows "sourceFile e = fp" "targetFile e \<noteq> []"
    "if relationType e = Import then onDisk env e
     else targetFile e \<in> fst ` set (codeModules st)"
proof -
  show "sourceFile e = fp" "targetFile e \<noteq> []" using assms by (simp_all add: edgeResolved_def)
  show "if relationType e = Import then onDisk env e
     else targetFile e \<in> fst ` set (codeModules st)"
  proof (cases "relationType e = Import")
    case False
    then show ?thesis using assms findClassDefinition_key by (auto simp: edgeResolved_def)
  next
    case True
    then have r: "resolveImport env lang fp (details e) = Inr (Some (targetFile e))"
      and s: "sourceFile e = fp"
      using assms by (simp_all add: edgeResolved_def)
    have "onDisk env e"
    proof (cases lang)
      case Go
      then have "resolveGoImport env fp (details e) = Inr (Some (targetFile e))"
        using r by (simp add: resolveImport_def)
      from resolveGoImport_entry [OF this] show ?thesis
        unfolding onDisk_def Let_def s by auto
    next
      case Java
      then show ?thesis
        using r resolveJavaImport_exists by (simp add: resolveImport_def onDisk_def)
    next
      case CSharp
      then show ?thesis
        using r resolveCSharpUsing_exists by (simp add: resolveImport_def onDisk_def)
    qed
    then show ?thesis using True by simp
  qed
qed

section \<open>Failures of the host\<close>

declare findProjectRootFrom.simps [simp del]

fun ioFailure :: "env \<Rightarrow> error \<Rightarrow> bool" where
  "ioFailure env (ReaddirError p) = (readdir env p = None)"
| "ioFailure env (StatError p) = (stat env p = None)"
| "ioFailure env (ReadFileError p) = (readFile env p = None)"

lemma traverse_error:
  "traverse env n dir files = Some (Inl e) \<Longrightarrow> ioFailure env e"
  "traverseItems env n dir items files = Some (Inl e) \<Longrightarrow> ioFailure env e"
proof (induction env n dir files and env n dir items files rule: traverse_traverseItems.induct)
  case (1 env dir files)
  then show ?case by simp
next
  case (2 env n dir files)
  then show ?case by (auto split: option.splits)
next
  case (3 env n dir files)
  then show ?case by simp
next
  case (4 env n dir item items files)
  then show ?case
    by (auto simp: Let_def split: option.splits if_splits sum.splits)
qed

lemma traverse_mono:
  "traverse env n dir files = Some r \<Longrightarrow> traverse env (n + k) dir files = Some r"
  "traverseItems env n dir items files = Some r \<Longrightarrow> traverseItems env (n + k) dir items files = Some r"
proof (induction env n dir files and env n dir items files arbitrary: r and r
    rule: traverse_traverseItems.induct)
  case (1 env dir files)
  then show ?case by simp
next
  case (2 env n dir files)
  then show ?case by (auto split: option.splits)
next
  case (3 env n dir files)
  then show ?case by simp
next
  case (4 env n dir item items files)
  then show ?case
    by (auto simp: Let_def split: option.splits if_splits sum.splits)
qed

lemma forEach_error:
  assumes "\<And>s x e. x \<in> set xs \<Longrightarrow> body s x = Inl e \<Longrightarrow> Q e"
  shows "forEach body xs st = Inl e \<Longrightarrow> Q e"
  using assms
proof (induction xs arbitrary: st)
  case Nil
  then show ?case by simp
next
  case (Cons x xs)
  show ?case
  proof (cases "body st x")
    case (Inl a)
    then show ?thesis using Cons.prems by auto
  next
    case (Inr s1)
    then have "forEach body xs s1 = Inl e" using Cons.prems(1) by simp
    then show ?thesis using Cons.prems(2) by (intro Cons.IH [of s1]) auto
  qed
qed

lemma markerPresent_error: "markerPresent env p mk = Inl e \<Longrightarrow> ioFailure env e"
  by (auto simp: markerPresent_def Let_def split: if_splits option.splits)

lemma anyMarker_error: "anyMarker env p mks = Inl e \<Longrightarrow> ioFailure env e"
  by (induction mks) (auto split: sum.splits bool.splits if_splits dest: markerPresent_error)

lemma findProjectRootFrom_error: "findProjectRootFrom env p = Inl e \<Longrightarrow> ioFailure env e"
proof (induction env p rule: findProjectRootFrom.induct)
  case (1 env currentPath)
  from "1.prems" show ?case
    by (subst (asm) findProjectRootFrom.simps)
       (auto split: if_splits sum.splits bool.splits dest: anyMarker_error intro: "1.IH")
qed

lemma resolve_errors:
  "resolveGoImport env fp ref = Inl e \<Longrightarrow> ioFailure env e"
  "resolveJavaImport env fp ref = Inl e \<Longrightarrow> ioFailure env e"
  "resolveCSharpUsing env fp ref = Inl e \<Longrightarrow> ioFailure env e"
  by (auto simp: resolveGoImport_def resolveJavaImport_def resolveCSharpUsing_def Let_def
      findProjectRoot_def
      split: if_splits option.splits sum.splits dest: findProjectRootFrom_error)

lemma findRelationshipsForFile_error:
  assumes "findRelationshipsForFile env st fp m = Inl e"
  shows "ioFailure env e"
proof -
  have gl: "goImportLine env fp s l = Inl e \<Longrightarrow> ioFailure env e" for s l e
    by (auto simp: goImportLine_def Let_def split: if_splits sum.splits dest: resolve_errors)
  have gm: "goImportMatch env fp s x = Inl e \<Longrightarrow> ioFailure env e" for s x e
    unfolding goImportMatch_def Let_def
    by (auto split: option.splits if_splits elim!: forEach_error [rotated] dest: gl)
  have go: "analyzeGoRelationships env st fp c = Inl e \<Longrightarrow> ioFailure env e" for c
    unfolding analyzeGoRelationships_def by (erule forEach_error [rotated]) (rule gm)
  have jm: "javaImportMatch env fp s x = Inl e \<Longrightarrow> ioFailure env e" for s x e
    by (auto simp: javaImportMatch_def Let_def split: option.splits if_splits sum.splits
        dest: resolve_errors)
  have java: "analyzeJavaRelationships env st fp c = Inl e \<Longrightarrow> ioFailure env e" for c
    unfolding analyzeJavaRelationships_def Let_def
    by (auto split: sum.splits elim!: forEach_error [rotated] dest: jm)
  have um: "usingMatch env fp s x = Inl e \<Longrightarrow> ioFailure env e" for s x e
    by (auto simp: usingMatch_def Let_def split: option.splits if_splits sum.splits
        dest: resolve_errors)
  have cs: "analyzeCSharpRelationships env st fp c = Inl e \<Longrightarrow> ioFailure env e" for c
    unfolding analyzeCSharpRelationships_def Let_def
    by (auto split: sum.splits elim!: forEach_error [rotated] dest: um)
  show ?thesis
    using assms unfolding findRelationshipsForFile_def
    by (auto split: option.splits language.splits dest: go java cs)
qed

lemma analyzeFileRelationships_error:
  "analyzeFileRelationships env st = Inl e \<Longrightarrow> ioFailure env e"
  unfolding analyzeFileRelationships_def
  by (erule forEach_error [rotated]) (auto dest: findRelationshipsForFile_error)

lemma parseFile_unreadable: "readFile env f = None \<Longrightarrow> parseFile env f = None"
  by (simp add: parseFile_def split: option.splits)

section \<open>The references of a file\<close>

text \<open>What a scan looks up, in the order of the source: the kind of edge it would
  store, the name it resolves, and the text it would record.\<close>

record reference =
  refType :: relationType
  refName :: string
  refDetails :: string

definition importRef :: "string \<Rightarrow> reference" where
  "importRef p = \<lparr>refType = Import, refName = p, refDetails = p\<rparr>"

definition goImportsOf :: "rmatch \<Rightarrow> string list" where
  "goImportsOf m =
     (let imports = (case group m 1 of
                       None \<Rightarrow> group m 2
                     | Some g \<Rightarrow> if g = [] then group m 2 else Some g)
      in case imports of
           None \<Rightarrow> []
         | Some imps \<Rightarrow>
             if imps = [] then []
             else filter (\<lambda>c. c \<noteq> [] \<and> \<not> startsWith c ''//'')
                    (map (\<lambda>l. trim (replaceAllChar (CHR 0x22) [] l))
                       (filter (\<lambda>line. trim line \<noteq> []) (split (CHR 0x0A) imps))))"

definition trimmedGroup :: "rmatch \<Rightarrow> string list" where
  "trimmedGroup m =
     (case group m 1 of None \<Rightarrow> [] | Some g \<Rightarrow> if trim g \<noteq> [] then [trim g] else [])"

definition javaClassReferences :: "rmatch \<Rightarrow> reference list" where
  "javaClassReferences m =
     (let className = groupText m 1 in
      (case group m 2 of
         None \<Rightarrow> []
       | Some extendsClass \<Rightarrow>
           if extendsClass = [] then []
           else [\<lparr>refType = Extends, refName = extendsClass,
                  refDetails = className @ '' extends '' @ extendsClass\<rparr>])
      @ (case group m 3 of
           None \<Rightarrow> []
         | Some implementsInterfaces \<Rightarrow>
             if implementsInterfaces = [] then []
             else map (\<lambda>i. \<lparr>refType = Implements, refName = i,
                             refDetails = className @ '' implements '' @ i\<rparr>)
                    (map trim (split (CHR '','') implementsInterfaces))))"

definition autowiredReference :: "rmatch \<Rightarrow> reference" where
  "autowiredReference m =
     \<lparr>refType = References, refName = groupText m 1,
      refDetails = ''@Autowired '' @ groupText m 1 @ '' '' @ groupText m 2\<rparr>"

definition annotationReferences :: "string \<Rightarrow> rmatch \<Rightarrow> reference list" where
  "annotationReferences content m =
     (if groupText m 1 \<in> set [''Autowired'', ''Inject'', ''Service'', ''Component'', ''Repository'']
      then map autowiredReference (rxExecAll fieldRegex content 0)
      else [])"

definition csharpClassReferences :: "rmatch \<Rightarrow> reference list" where
  "csharpClassReferences m =
     (let className = groupText m 1 in
      case group m 2 of
        None \<Rightarrow> []
      | Some baseTypes \<Rightarrow>
          if baseTypes = [] then []
          else map (\<lambda>b. \<lparr>refType = Extends, refName = replaceFirst genericsRegex [] b,
                          refDetails = className @ '' : '' @ b\<rparr>)
                 (map trim (split (CHR '','') baseTypes)))"

definition diReference :: "rmatch \<Rightarrow> reference" where
  "diReference m =
     \<lparr>refType = References, refName = ''I'' @ groupText m 1,
      refDetails = ''Dependency injection: '' @ (''I'' @ groupText m 1)\<rparr>"

definition references :: "language \<Rightarrow> string \<Rightarrow> reference list" where
  "references lang content =
     (case lang of
        Go \<Rightarrow> map importRef (concat (map goImportsOf (rxExecAll goImportRegex content 0)))
      | Java \<Rightarrow>
          map importRef (concat (map trimmedGroup (rxExecAll javaImportRegex content 0)))
          @ concat (map javaClassReferences (rxExecAll javaClassRegex content 0))
          @ concat (map (annotationReferences content) (rxExecAll annotationRegex content 0))
      | CSharp \<Rightarrow>
          map importRef (concat (map trimmedGroup (rxExecAll usingRegex content 0)))
          @ concat (map csharpClassReferences (rxExecAll csharpClassRegex content 0))
          @ map diReference (rxExecAll diRegex content 0))"

text \<open>The resolution of a reference: the resolver of the language for an import, the
  module table for a class name. Only the first can reject.\<close>

definition resolveReference ::
  "env \<Rightarrow> ContextAnalyzer \<Rightarrow> string \<Rightarrow> language \<Rightarrow> reference \<Rightarrow> error + string option" where
  "resolveReference env st fp lang r =
     (if refType r = Import then resolveImport env lang fp (refName r)
      else Inr (findClassDefinition st fp (refName r)))"

text \<open>The entries a reference contributes for a resolution: none for an absent or empty
  target, one edge otherwise.\<close>

definition entriesOf :: "string \<Rightarrow> reference \<Rightarrow> string option \<Rightarrow> FileRelationship list" where
  "entriesOf fp r resolved =
     (case resolved of
        None \<Rightarrow> []
      | Some target \<Rightarrow>
          if target = [] then []
          else [\<lparr>sourceFile = fp, targetFile = target, relationType = refType r,
                 details = refDetails r\<rparr>])"

definition tryReference ::
  "env \<Rightarrow> ContextAnalyzer \<Rightarrow> string \<Rightarrow> language \<Rightarrow> reference \<Rightarrow> error + FileRelationship list" where
  "tryReference env st fp lang r =
     (case resolveReference env st fp lang r of
        Inl e \<Rightarrow> Inl e
      | Inr resolved \<Rightarrow> Inr (entriesOf fp r resolved))"

fun collect :: "('a \<Rightarrow> error + 'b list) \<Rightarrow> 'a list \<Rightarrow> error + 'b list" where
  "collect h [] = Inr []"
| "collect h (x # xs) =
     (case h x of
        Inl e \<Rightarrow> Inl e
      | Inr a \<Rightarrow> (case collect h xs of Inl e \<Rightarrow> Inl e | Inr b \<Rightarrow> Inr (a @ b)))"

definition addEdges :: "ContextAnalyzer \<Rightarrow> FileRelationship list \<Rightarrow> ContextAnalyzer" where
  "addEdges st es = st\<lparr>fileRelationships := fileRelationships st @ es\<rparr>"

subsection \<open>A scan is the resolution of the references in order\<close>

lemma addEdges_nil [simp]: "addEdges st [] = st"
  by (simp add: addEdges_def)

lemma addEdges_addEdges [simp]: "addEdges (addEdges st a) b = addEdges st (a @ b)"
  by (simp add: addEdges_def)

lemma addEdges_fields [simp]:
  "codeModules (addEdges st es) = codeModules st"
  "crossReferences (addEdges st es) = crossReferences st"
  "fileRelationships (addEdges st es) = fileRelationships st @ es"
  by (simp_all add: addEdges_def)

lemma addEdges_inject: "addEdges st a = addEdges st b \<longleftrightarrow> a = b"
proof
  assume "addEdges st a = addEdges st b"
  then have "fileRelationships (addEdges st a) = fileRelationships (addEdges st b)" by simp
  then show "a = b" by simp
qed simp

lemma findClassDefinition_addEdges [simp]:
  "findClassDefinition (addEdges st es) b c = findClassDefinition st b c"
  by (simp add: findClassDefinition_def)

lemma resolveReference_addEdges [simp]:
  "resolveReference env (addEdges st es) fp lang r = resolveReference env st fp lang r"
  by (simp add: resolveReference_def)

lemma pushIfResolved_addEdges:
  "pushIfResolved (addEdges st es) fp resolved rt det =
     addEdges st (es @ entriesOf fp \<lparr>refType = rt, refName = n, refDetails = det\<rparr> resolved)"
  by (simp add: pushIfResolved_def entriesOf_def addEdges_def split: option.splits)

lemma push_class:
  "pushIfResolved (addEdges st es) fp (findClassDefinition st fp cn) rt det =
     addEdges st (es @ entriesOf fp \<lparr>refType = rt, refName = cn, refDetails = det\<rparr>
                        (findClassDefinition st fp cn))"
  by (simp add: pushIfResolved_addEdges [where n = cn])

lemma concat_map_concat: "concat (map f (concat xss)) = concat (map (\<lambda>xs. concat (map f xs)) xss)"
  by (induction xss) simp_all

definition andThen :: "error + FileRelationship list \<Rightarrow> ContextAnalyzer \<Rightarrow> FileRelationship list
    \<Rightarrow> error + ContextAnalyzer" where
  "andThen x st es = (case x of Inl e \<Rightarrow> Inl e | Inr new \<Rightarrow> Inr (addEdges st (es @ new)))"

lemma andThen_simps [simp]:
  "andThen (Inl e) st es = Inl e"
  "andThen (Inr new) st es = Inr (addEdges st (es @ new))"
  by (simp_all add: andThen_def)

lemma forEach_collect:
  assumes "\<And>es x. body (addEdges st es) x = andThen (h x) st es"
  shows "forEach body xs (addEdges st es) = andThen (collect h xs) st es"
proof (induction xs arbitrary: es)
  case Nil
  then show ?case by simp
next
  case (Cons x xs)
  show ?case
  proof (cases "h x")
    case (Inl e)
    then show ?thesis by (simp add: assms)
  next
    case (Inr a)
    then show ?thesis by (cases "collect h xs") (simp_all add: assms Cons.IH)
  qed
qed

lemma foldl_collect:
  assumes "\<And>es x. f (addEdges st es) x = addEdges st (es @ g x)"
  shows "foldl f (addEdges st es) xs = addEdges st (es @ concat (map g xs))"
  by (induction xs arbitrary: es) (simp_all add: assms)

lemma collect_pure: "(\<And>x. x \<in> set xs \<Longrightarrow> h x = Inr (g x)) \<Longrightarrow> collect h xs = Inr (concat (map g xs))"
  by (induction xs) simp_all

lemma collect_append:
  "collect h (xs @ ys) =
     (case collect h xs of
        Inl e \<Rightarrow> Inl e
      | Inr a \<Rightarrow> (case collect h ys of Inl e \<Rightarrow> Inl e | Inr b \<Rightarrow> Inr (a @ b)))"
  by (induction xs) (auto split: sum.splits)

lemma collect_concat: "collect (\<lambda>x. collect h (g x)) xs = collect h (concat (map g xs))"
  by (induction xs) (auto simp: collect_append split: sum.splits)

lemma collect_map: "collect h (map k xs) = collect (\<lambda>x. h (k x)) xs"
  by (induction xs) (auto split: sum.splits)

lemma collect_filter: "collect (\<lambda>x. if P x then h x else Inr []) xs = collect h (filter P xs)"
  by (induction xs) (auto split: sum.splits)

definition classEntries :: "ContextAnalyzer \<Rightarrow> string \<Rightarrow> reference \<Rightarrow> FileRelationship list" where
  "classEntries st fp r = entriesOf fp r (findClassDefinition st fp (refName r))"

lemma tryReference_class:
  "refType r \<noteq> Import \<Longrightarrow> tryReference env st fp lang r = Inr (classEntries st fp r)"
  by (simp add: tryReference_def resolveReference_def classEntries_def)

lemma tryReference_import:
  "tryReference env st fp lang (importRef p) =
     (case resolveImport env lang fp p of
        Inl e \<Rightarrow> Inl e
      | Inr resolved \<Rightarrow> Inr (entriesOf fp (importRef p) resolved))"
  unfolding importRef_def by (simp add: tryReference_def resolveReference_def)

lemma push_import:
  "pushIfResolved (addEdges st es) fp resolved Import p =
     addEdges st (es @ entriesOf fp (importRef p) resolved)"
  unfolding importRef_def by (rule pushIfResolved_addEdges)

subsubsection \<open>Go\<close>

lemma goImportLine_collect:
  "goImportLine env fp (addEdges st es) l =
     andThen
       (let c = trim (replaceAllChar (CHR 0x22) [] l) in
        if c \<noteq> [] \<and> \<not> startsWith c ''//'' then tryReference env st fp Go (importRef c)
        else Inr [])
       st es"
  by (simp add: goImportLine_def Let_def tryReference_import resolveImport_def push_import
      split: sum.splits)

lemma goImportMatch_collect:
  "goImportMatch env fp (addEdges st es) m =
     andThen (collect (tryReference env st fp Go) (map importRef (goImportsOf m))) st es"
proof -
  let ?clean = "\<lambda>l. trim (replaceAllChar (CHR 0x22) [] l)"
  let ?keep = "\<lambda>c. c \<noteq> [] \<and> \<not> startsWith c ''//''"
  have lines: "forEach (goImportLine env fp) ls (addEdges st es) =
      andThen (collect (tryReference env st fp Go) (map importRef (filter ?keep (map ?clean ls)))) st es"
    for ls
  proof -
    have "forEach (goImportLine env fp) ls (addEdges st es) =
        andThen (collect (\<lambda>l. if ?keep (?clean l) then tryReference env st fp Go (importRef (?clean l))
                               else Inr []) ls) st es"
      by (rule forEach_collect) (simp add: goImportLine_collect Let_def)
    also have "collect (\<lambda>l. if ?keep (?clean l) then tryReference env st fp Go (importRef (?clean l))
                               else Inr []) ls =
        collect (\<lambda>c. if ?keep c then tryReference env st fp Go (importRef c) else Inr []) (map ?clean ls)"
      by (simp add: collect_map)
    also have "\<dots> = collect (\<lambda>c. tryReference env st fp Go (importRef c)) (filter ?keep (map ?clean ls))"
      by (rule collect_filter)
    also have "\<dots> = collect (tryReference env st fp Go) (map importRef (filter ?keep (map ?clean ls)))"
      by (simp add: collect_map)
    finally show ?thesis .
  qed
  show ?thesis
    unfolding goImportMatch_def goImportsOf_def Let_def
    by (simp add: lines split: option.splits)
qed

lemma analyzeGo_collect:
  "analyzeGoRelationships env st fp content =
     andThen (collect (tryReference env st fp Go) (references Go content)) st []"
proof -
  have "forEach (goImportMatch env fp) ms (addEdges st []) =
      andThen (collect (\<lambda>m. collect (tryReference env st fp Go) (map importRef (goImportsOf m))) ms) st []"
    for ms
    by (rule forEach_collect) (rule goImportMatch_collect)
  then show ?thesis
    unfolding analyzeGoRelationships_def references_def
    by (simp add: collect_concat map_concat comp_def)
qed

subsubsection \<open>Java and C#\<close>

lemma importMatch_collect:
  "javaImportMatch env fp (addEdges st es) m =
     andThen (collect (tryReference env st fp Java) (map importRef (trimmedGroup m))) st es"
  "usingMatch env fp (addEdges st es) m =
     andThen (collect (tryReference env st fp CSharp) (map importRef (trimmedGroup m))) st es"
  by (simp_all add: javaImportMatch_def usingMatch_def trimmedGroup_def Let_def
      tryReference_import resolveImport_def push_import split: option.splits sum.splits)

lemma javaClassMatch_collect:
  "javaClassMatch fp (addEdges st es) m =
     addEdges st (es @ concat (map (classEntries st fp) (javaClassReferences m)))"
proof -
  have impl: "foldl (javaImplements fp cn) (addEdges st es1) is =
      addEdges st (es1 @ concat (map (classEntries st fp)
        (map (\<lambda>i. \<lparr>refType = Implements, refName = i, refDetails = cn @ '' implements '' @ i\<rparr>) is)))"
    for cn es1 "is"
  proof -
    have "foldl (javaImplements fp cn) (addEdges st es1) is =
        addEdges st (es1 @ concat (map (\<lambda>i. classEntries st fp
          \<lparr>refType = Implements, refName = i, refDetails = cn @ '' implements '' @ i\<rparr>) is))"
      by (rule foldl_collect)
         (simp add: javaImplements_def classEntries_def push_class)
    then show ?thesis by (simp add: comp_def)
  qed
  show ?thesis
    unfolding javaClassMatch_def javaClassReferences_def Let_def
    by (simp add: impl classEntries_def push_class split: option.splits)
qed

lemma annotationMatch_collect:
  "annotationMatch fp content (addEdges st es) m =
     addEdges st (es @ concat (map (classEntries st fp) (annotationReferences content m)))"
proof -
  have "foldl (autowiredField fp) (addEdges st es) ms =
      addEdges st (es @ concat (map (\<lambda>m. classEntries st fp (autowiredReference m)) ms))" for ms
    by (rule foldl_collect)
       (simp add: autowiredField_def autowiredReference_def classEntries_def Let_def push_class)
  then show ?thesis
    by (simp add: annotationMatch_def annotationReferences_def findServiceDependencies_def
        Let_def comp_def)
qed

lemma csharpClassMatch_collect:
  "csharpClassMatch fp (addEdges st es) m =
     addEdges st (es @ concat (map (classEntries st fp) (csharpClassReferences m)))"
proof -
  have "foldl (csharpBaseType fp cn) (addEdges st es) ts =
      addEdges st (es @ concat (map (\<lambda>b. classEntries st fp
        \<lparr>refType = Extends, refName = replaceFirst genericsRegex [] b,
         refDetails = cn @ '' : '' @ b\<rparr>) ts))" for cn ts
    by (rule foldl_collect)
       (simp add: csharpBaseType_def classEntries_def Let_def push_class)
  then show ?thesis
    by (simp add: csharpClassMatch_def csharpClassReferences_def Let_def comp_def
        split: option.splits)
qed

lemma diMatch_collect:
  "diMatch fp (addEdges st es) m = addEdges st (es @ classEntries st fp (diReference m))"
  by (simp add: diMatch_def diReference_def classEntries_def Let_def push_class)

lemma classRefs_notImport:
  "r \<in> set (javaClassReferences m) \<Longrightarrow> refType r \<noteq> Import"
  "r \<in> set (annotationReferences content m) \<Longrightarrow> refType r \<noteq> Import"
  "r \<in> set (csharpClassReferences m) \<Longrightarrow> refType r \<noteq> Import"
  "refType (diReference m) \<noteq> Import"
  by (auto simp: javaClassReferences_def annotationReferences_def autowiredReference_def
      csharpClassReferences_def diReference_def Let_def split: option.splits if_splits)

lemma collect_classes:
  assumes "\<And>r. r \<in> set rs \<Longrightarrow> refType r \<noteq> Import"
  shows "collect (tryReference env st fp lang) rs = Inr (concat (map (classEntries st fp) rs))"
  by (rule collect_pure) (simp add: tryReference_class assms)

lemma analyzeJava_collect:
  "analyzeJavaRelationships env st fp content =
     andThen (collect (tryReference env st fp Java) (references Java content)) st []"
proof -
  let ?imports = "map importRef (concat (map trimmedGroup (rxExecAll javaImportRegex content 0)))"
  let ?classes = "concat (map javaClassReferences (rxExecAll javaClassRegex content 0))"
  let ?annots = "concat (map (annotationReferences content) (rxExecAll annotationRegex content 0))"
  have a: "forEach (javaImportMatch env fp) (rxExecAll javaImportRegex content 0) st =
      andThen (collect (tryReference env st fp Java) ?imports) st []"
  proof -
    have "forEach (javaImportMatch env fp) ms (addEdges st []) =
        andThen (collect (\<lambda>m. collect (tryReference env st fp Java) (map importRef (trimmedGroup m))) ms)
          st []" for ms
      by (rule forEach_collect) (rule importMatch_collect)
    then show ?thesis by (simp add: collect_concat map_concat comp_def)
  qed
  have b: "foldl (javaClassMatch fp) (addEdges st es) ms =
      addEdges st (es @ concat (map (classEntries st fp) (concat (map javaClassReferences ms))))"
    for es ms
  proof -
    have "foldl (javaClassMatch fp) (addEdges st es) ms =
        addEdges st (es @ concat (map (\<lambda>m. concat (map (classEntries st fp) (javaClassReferences m))) ms))"
      by (rule foldl_collect) (rule javaClassMatch_collect)
    then show ?thesis by (simp add: concat_map_concat comp_def)
  qed
  have c: "foldl (annotationMatch fp content) (addEdges st es) ms =
      addEdges st (es @ concat (map (classEntries st fp)
        (concat (map (annotationReferences content) ms))))" for es ms
  proof -
    have "foldl (annotationMatch fp content) (addEdges st es) ms =
        addEdges st (es @ concat (map (\<lambda>m. concat (map (classEntries st fp)
          (annotationReferences content m))) ms))"
      by (rule foldl_collect) (rule annotationMatch_collect)
    then show ?thesis by (simp add: concat_map_concat comp_def)
  qed
  have cl: "collect (tryReference env st fp Java) (?classes @ ?annots) =
      Inr (concat (map (classEntries st fp) (?classes @ ?annots)))"
    by (rule collect_classes) (auto dest: classRefs_notImport(1-3))
  show ?thesis
  proof (cases "collect (tryReference env st fp Java) ?imports")
    case (Inl e)
    then show ?thesis
      unfolding analyzeJavaRelationships_def Let_def a references_def
      by (simp add: collect_append)
  next
    case (Inr es)
    have "collect (tryReference env st fp Java) (?imports @ ?classes @ ?annots) =
        Inr (es @ concat (map (classEntries st fp) (?classes @ ?annots)))"
      unfolding collect_append [of _ ?imports] Inr cl by simp
    then show ?thesis
      unfolding analyzeJavaRelationships_def Let_def a references_def
      by (simp add: Inr b c)
  qed
qed

lemma analyzeCSharp_collect:
  "analyzeCSharpRelationships env st fp content =
     andThen (collect (tryReference env st fp CSharp) (references CSharp content)) st []"
proof -
  let ?imports = "map importRef (concat (map trimmedGroup (rxExecAll usingRegex content 0)))"
  let ?classes = "concat (map csharpClassReferences (rxExecAll csharpClassRegex content 0))"
  let ?di = "map diReference (rxExecAll diRegex content 0)"
  have a: "forEach (usingMatch env fp) (rxExecAll usingRegex content 0) st =
      andThen (collect (tryReference env st fp CSharp) ?imports) st []"
  proof -
    have "forEach (usingMatch env fp) ms (addEdges st []) =
        andThen (collect (\<lambda>m. collect (tryReference env st fp CSharp) (map importRef (trimmedGroup m))) ms)
          st []" for ms
      by (rule forEach_collect) (rule importMatch_collect)
    then show ?thesis by (simp add: collect_concat map_concat comp_def)
  qed
  have b: "foldl (csharpClassMatch fp) (addEdges st es) ms =
      addEdges st (es @ concat (map (classEntries st fp) (concat (map csharpClassReferences ms))))"
    for es ms
  proof -
    have "foldl (csharpClassMatch fp) (addEdges st es) ms =
        addEdges st (es @ concat (map (\<lambda>m. concat (map (classEntries st fp) (csharpClassReferences m))) ms))"
      by (rule foldl_collect) (rule csharpClassMatch_collect)
    then show ?thesis by (simp add: concat_map_concat comp_def)
  qed
  have c: "foldl (diMatch fp) (addEdges st es) ms =
      addEdges st (es @ concat (map (classEntries st fp) (map diReference ms)))" for es ms
  proof -
    have "foldl (diMatch fp) (addEdges st es) ms =
        addEdges st (es @ concat (map (\<lambda>m. classEntries st fp (diReference m)) ms))"
      by (rule foldl_collect) (rule diMatch_collect)
    then show ?thesis by (simp add: comp_def)
  qed
  have cl: "collect (tryReference env st fp CSharp) (?classes @ ?di) =
      Inr (concat (map (classEntries st fp) (?classes @ ?di)))"
    by (rule collect_classes) (auto dest: classRefs_notImport(1-3) simp: classRefs_notImport(4))
  show ?thesis
  proof (cases "collect (tryReference env st fp CSharp) ?imports")
    case (Inl e)
    then show ?thesis
      unfolding analyzeCSharpRelationships_def Let_def a references_def
      by (simp add: collect_append)
  next
    case (Inr es)
    have "collect (tryReference env st fp CSharp) (?imports @ ?classes @ ?di) =
        Inr (es @ concat (map (classEntries st fp) (?classes @ ?di)))"
      unfolding collect_append [of _ ?imports] Inr cl by simp
    then show ?thesis
      unfolding analyzeCSharpRelationships_def Let_def a references_def
      by (simp add: Inr b c)
  qed
qed

lemma findRelationshipsForFile_collect:
  "findRelationshipsForFile env st fp m =
     (case readFile env fp of
        None \<Rightarrow> Inl (ReadFileError fp)
      | Some content \<Rightarrow>
          andThen (collect (tryReference env st fp (language m)) (references (language m) content))
            st [])"
  unfolding findRelationshipsForFile_def
  by (simp add: analyzeGo_collect analyzeJava_collect analyzeCSharp_collect
      split: option.splits language.splits)

subsection \<open>When a scan returns and when it rejects\<close>

lemma collect_try_Inr:
  "collect (tryReference env st fp lang) rs = Inr es \<longleftrightarrow>
     (\<exists>ress. map (resolveReference env st fp lang) rs = map Inr ress
            \<and> es = concat (map2 (entriesOf fp) rs ress))"
proof (induction rs arbitrary: es)
  case Nil
  then show ?case by auto
next
  case (Cons r rs)
  show ?case
  proof (cases "resolveReference env st fp lang r")
    case (Inl e)
    then show ?thesis by (auto simp: tryReference_def)
  next
    case (Inr res)
    show ?thesis
    proof
      assume "collect (tryReference env st fp lang) (r # rs) = Inr es"
      then obtain b where b: "collect (tryReference env st fp lang) rs = Inr b"
        and es: "es = entriesOf fp r res @ b"
        by (auto simp: tryReference_def Inr split: sum.splits)
      from b Cons.IH [of b] obtain ress where
        ress: "map (resolveReference env st fp lang) rs = map Inr ress"
        "b = concat (map2 (entriesOf fp) rs ress)" by blast
      have "map (resolveReference env st fp lang) (r # rs) = map Inr (res # ress)
          \<and> es = concat (map2 (entriesOf fp) (r # rs) (res # ress))"
        using ress es Inr by simp
      then show "\<exists>ress. map (resolveReference env st fp lang) (r # rs) = map Inr ress
            \<and> es = concat (map2 (entriesOf fp) (r # rs) ress)" by blast
    next
      assume "\<exists>ress. map (resolveReference env st fp lang) (r # rs) = map Inr ress
            \<and> es = concat (map2 (entriesOf fp) (r # rs) ress)"
      then obtain ress where
        m: "map (resolveReference env st fp lang) (r # rs) = map Inr ress"
        and es: "es = concat (map2 (entriesOf fp) (r # rs) ress)" by blast
      from m obtain x ress' where ress: "ress = x # ress'" by (cases ress) auto
      from m ress Inr have x: "x = res"
        and m': "map (resolveReference env st fp lang) rs = map Inr ress'" by auto
      have "collect (tryReference env st fp lang) rs = Inr (concat (map2 (entriesOf fp) rs ress'))"
        using Cons.IH m' by blast
      then show "collect (tryReference env st fp lang) (r # rs) = Inr es"
        using es ress x Inr by (simp add: tryReference_def)
    qed
  qed
qed



lemma scan_returns:
  assumes "readFile env fp = Some content"
  shows "findRelationshipsForFile env st fp m = Inr st' \<longleftrightarrow>
     (\<exists>ress. map (resolveReference env st fp (language m)) (references (language m) content) =
               map Inr ress
           \<and> st' = addEdges st (concat (map2 (entriesOf fp) (references (language m) content) ress)))"
proof -
  let ?c = "collect (tryReference env st fp (language m)) (references (language m) content)"
  have "findRelationshipsForFile env st fp m = Inr st' \<longleftrightarrow> (\<exists>es. ?c = Inr es \<and> st' = addEdges st es)"
    unfolding findRelationshipsForFile_collect assms
    by (cases ?c) auto
  then show ?thesis unfolding collect_try_Inr by blast
qed



section \<open>How far a failure of the host reaches\<close>

text \<open>The directories the traversal enters within \<open>k\<close> levels below the root: the root,
  and every entry of an entered directory that is a directory and is not skipped.\<close>

fun enteredWithin :: "env \<Rightarrow> nat \<Rightarrow> string \<Rightarrow> string \<Rightarrow> bool" where
  "enteredWithin env 0 root d = (d = root)"
| "enteredWithin env (Suc k) root d =
     (d = root \<or>
      (case readdir env root of
         None \<Rightarrow> False
       | Some items \<Rightarrow>
           \<exists>item \<in> set items.
             (case stat env (pathJoin [root, item]) of
                None \<Rightarrow> False
              | Some s \<Rightarrow>
                  isDirectory s \<and> \<not> shouldSkipDirectory item
                  \<and> enteredWithin env k (pathJoin [root, item]) d)))"

text \<open>A directory tree that the traversal exhausts with \<open>n\<close> levels of fuel: below a
  directory that can be listed, every entry that would be entered has such a tree with
  one level less.\<close>

fun treeWithin :: "env \<Rightarrow> nat \<Rightarrow> string \<Rightarrow> bool" where
  "treeWithin env 0 dir = False"
| "treeWithin env (Suc n) dir =
     (case readdir env dir of
        None \<Rightarrow> True
      | Some items \<Rightarrow>
          \<forall>item \<in> set items.
            (case stat env (pathJoin [dir, item]) of
               None \<Rightarrow> True
             | Some s \<Rightarrow>
                 isDirectory s \<and> \<not> shouldSkipDirectory item
                   \<longrightarrow> treeWithin env n (pathJoin [dir, item])))"

subsection \<open>The traversal\<close>

lemma traverse_returns:
  assumes "traverse env n dir files = Some (Inr files')"
  shows "\<exists>m items. n = Suc m \<and> readdir env dir = Some items
           \<and> traverseItems env m dir items files = Some (Inr files')"
  using assms by (cases n) (auto split: option.splits)

lemma traverseItems_returns:
  "traverseItems env n dir items files = Some (Inr files') \<Longrightarrow>
     \<forall>item \<in> set items.
       \<exists>s. stat env (pathJoin [dir, item]) = Some s
          \<and> (isDirectory s \<and> \<not> shouldSkipDirectory item \<longrightarrow>
               (\<exists>f1 f2. traverse env n (pathJoin [dir, item]) f1 = Some (Inr f2)))"
proof (induction items arbitrary: files)
  case Nil
  then show ?case by simp
next
  case (Cons item items)
  from Cons.prems obtain s where s: "stat env (pathJoin [dir, item]) = Some s"
    by (auto simp: Let_def split: option.splits)
  show ?case
  proof (cases "isDirectory s \<and> \<not> shouldSkipDirectory item")
    case True
    with Cons.prems s obtain f2 where
      f2: "traverse env n (pathJoin [dir, item]) files = Some (Inr f2)"
      and rest: "traverseItems env n dir items f2 = Some (Inr files')"
      by (auto simp: Let_def split: option.splits sum.splits)
    from Cons.IH [OF rest] s f2 show ?thesis by auto
  next
    case False
    with Cons.prems s obtain f2 where rest: "traverseItems env n dir items f2 = Some (Inr files')"
      by (auto simp: Let_def split: if_splits)
    from Cons.IH [OF rest] s False show ?thesis by auto
  qed
qed

lemma entered_listed:
  "enteredWithin env k root d \<Longrightarrow> traverse env n root f1 = Some (Inr f2) \<Longrightarrow>
     \<exists>items. readdir env d = Some items \<and> (\<forall>i \<in> set items. stat env (pathJoin [d, i]) \<noteq> None)"
proof (induction k arbitrary: root n f1 f2)
  case 0
  then have d: "d = root" by simp
  from traverse_returns [OF "0.prems"(2)] obtain m items where
    m: "readdir env root = Some items" "traverseItems env m root items f1 = Some (Inr f2)"
    by blast
  from traverseItems_returns [OF m(2)] m(1) show ?case unfolding d by fastforce
next
  case (Suc k)
  from traverse_returns [OF Suc.prems(2)] obtain m items where
    m: "readdir env root = Some items" "traverseItems env m root items f1 = Some (Inr f2)"
    by blast
  note ti = traverseItems_returns [OF m(2)]
  show ?case
  proof (cases "d = root")
    case True
    with ti m(1) show ?thesis by fastforce
  next
    case False
    with Suc.prems(1) m(1) obtain item s where
      item: "item \<in> set items" "stat env (pathJoin [root, item]) = Some s"
        "isDirectory s" "\<not> shouldSkipDirectory item"
        "enteredWithin env k (pathJoin [root, item]) d"
      by (auto split: option.splits)
    from ti item(1-4) obtain g1 g2 where
      "traverse env m (pathJoin [root, item]) g1 = Some (Inr g2)" by fastforce
    from Suc.IH [OF item(5) this] show ?thesis .
  qed
qed

lemma traverse_total:
  "treeWithin env n dir \<Longrightarrow> \<exists>r. traverse env n dir files = Some r"
proof (induction n arbitrary: dir files)
  case 0
  then show ?case by simp
next
  case (Suc n)
  show ?case
  proof (cases "readdir env dir")
    case None
    then show ?thesis by simp
  next
    case (Some items)
    have "(\<forall>item \<in> set its.
            (case stat env (pathJoin [dir, item]) of
               None \<Rightarrow> True
             | Some s \<Rightarrow> isDirectory s \<and> \<not> shouldSkipDirectory item
                 \<longrightarrow> treeWithin env n (pathJoin [dir, item])))
        \<Longrightarrow> \<exists>r. traverseItems env n dir its fs = Some r" for its fs
    proof (induction its arbitrary: fs)
      case Nil
      then show ?case by simp
    next
      case (Cons item its)
      show ?case
      proof (cases "stat env (pathJoin [dir, item])")
        case None
        then show ?thesis by (simp add: Let_def)
      next
        case (Some s)
        have rest: "\<exists>r. traverseItems env n dir its g = Some r" for g
          using Cons.IH Cons.prems by simp
        show ?thesis
        proof (cases "isDirectory s \<and> \<not> shouldSkipDirectory item")
          case True
          then have "treeWithin env n (pathJoin [dir, item])"
            using Cons.prems Some by simp
          from Suc.IH [OF this, of fs] obtain r where
            r: "traverse env n (pathJoin [dir, item]) fs = Some r" by blast
          show ?thesis
          proof (cases r)
            case (Inl e)
            then show ?thesis using Some True r by (simp add: Let_def)
          next
            case (Inr g)
            then show ?thesis using Some True r rest [of g] by (simp add: Let_def)
          qed
        next
          case False
          then show ?thesis
            using Some rest [of fs] rest [of "fs @ [pathJoin [dir, item]]"]
            by (auto simp: Let_def)
        qed
      qed
    qed
    then show ?thesis using Suc.prems Some by simp
  qed
qed

subsection \<open>The relationship pass\<close>

lemma all_Inr: "(\<exists>ress. map f rs = map Inr ress) \<longleftrightarrow> (\<forall>r \<in> set rs. \<exists>res. f r = Inr res)"
proof (induction rs)
  case Nil
  then show ?case by simp
next
  case (Cons r rs)
  show ?case
  proof
    assume "\<exists>ress. map f (r # rs) = map Inr ress"
    then obtain ress where m: "map f (r # rs) = map Inr ress" by blast
    then obtain x ress' where "ress = x # ress'" by (cases ress) auto
    with m have "f r = Inr x" "map f rs = map Inr ress'" by auto
    then show "\<forall>r \<in> set (r # rs). \<exists>res. f r = Inr res" using Cons.IH by auto
  next
    assume a: "\<forall>r \<in> set (r # rs). \<exists>res. f r = Inr res"
    then obtain x where x: "f r = Inr x" by auto
    from a Cons.IH obtain ress where "map f rs = map Inr ress" by auto
    with x have "map f (r # rs) = map Inr (x # ress)" by simp
    then show "\<exists>ress. map f (r # rs) = map Inr ress" by blast
  qed
qed

lemma scan_succeeds:
  "(\<exists>s'. findRelationshipsForFile env st fp m = Inr s') \<longleftrightarrow>
     (\<exists>content. readFile env fp = Some content
        \<and> (\<forall>r \<in> set (references (language m) content).
              \<exists>res. resolveReference env st fp (language m) r = Inr res))"
proof (cases "readFile env fp")
  case None
  then show ?thesis by (simp add: findRelationshipsForFile_def)
next
  case (Some content)
  have "(\<exists>s'. findRelationshipsForFile env st fp m = Inr s') \<longleftrightarrow>
      (\<exists>ress. map (resolveReference env st fp (language m)) (references (language m) content) =
               map Inr ress)"
    using scan_returns [OF Some, of st m] by blast
  then show ?thesis unfolding all_Inr using Some by simp
qed

lemma resolveReference_table:
  "codeModules s = codeModules st \<Longrightarrow>
     resolveReference env s fp lang r = resolveReference env st fp lang r"
  by (simp add: resolveReference_def findClassDefinition_def)

lemma forEach_succeeds:
  assumes inv: "\<And>s x s'. I s \<Longrightarrow> body s x = Inr s' \<Longrightarrow> I s'"
    and ok: "\<And>s x. I s \<Longrightarrow> (\<exists>s'. body s x = Inr s') \<longleftrightarrow> Q x"
  shows "I st \<Longrightarrow> (\<exists>st'. forEach body xs st = Inr st') \<longleftrightarrow> (\<forall>x \<in> set xs. Q x)"
proof (induction xs arbitrary: st)
  case Nil
  then show ?case by simp
next
  case (Cons x xs)
  show ?case
  proof (cases "body st x")
    case (Inl e)
    then have "\<not> Q x" using ok [OF Cons.prems, of x] by simp
    then show ?thesis using Inl by simp
  next
    case (Inr s1)
    then have q: "Q x" using ok [OF Cons.prems, of x] by auto
    have "I s1" using inv Cons.prems Inr by blast
    from Cons.IH [OF this] show ?thesis using Inr q by simp
  qed
qed

lemma pass_succeeds:
  "(\<exists>st'. analyzeFileRelationships env st = Inr st') \<longleftrightarrow>
     (\<forall>(fp, m) \<in> set (codeModules st).
        \<exists>content. readFile env fp = Some content
          \<and> (\<forall>r \<in> set (references (language m) content).
                \<exists>res. resolveReference env st fp (language m) r = Inr res))"
  unfolding analyzeFileRelationships_def
proof (rule forEach_succeeds [where I = "\<lambda>s. codeModules s = codeModules st"])
  fix s s' :: ContextAnalyzer and x :: "string \<times> CodeModule"
  assume "codeModules s = codeModules st"
    "(case x of (fp, module) \<Rightarrow> findRelationshipsForFile env s fp module) = Inr s'"
  then show "codeModules s' = codeModules st"
    by (cases x) (auto dest: findRelationshipsForFile_appended simp: appended_def)
next
  fix s :: ContextAnalyzer and x :: "string \<times> CodeModule"
  assume c: "codeModules s = codeModules st"
  show "(\<exists>s'. (case x of (fp, module) \<Rightarrow> findRelationshipsForFile env s fp module) = Inr s') \<longleftrightarrow>
      (case x of (fp, m) \<Rightarrow>
        \<exists>content. readFile env fp = Some content
          \<and> (\<forall>r \<in> set (references (language m) content).
                \<exists>res. resolveReference env st fp (language m) r = Inr res))"
    by (cases x) (simp add: scan_succeeds resolveReference_table [OF c])
qed simp

subsection \<open>The resolvers\<close>

lemma resolveGoImport_rejects:
  assumes "startsWith ref ''./'' \<or> startsWith ref ''../''"
    and "pathExists env (pathResolve (cwd env) [dirname fp, ref])"
    and "readdir env (pathResolve (cwd env) [dirname fp, ref]) = None"
  shows "resolveGoImport env fp ref =
           Inl (ReaddirError (pathResolve (cwd env) [dirname fp, ref]))"
  using assms by (simp add: resolveGoImport_def Let_def)

definition plainMarkers :: "string list" where
  "plainMarkers = [''package.json'', ''pom.xml'', ''build.gradle'', ''go.mod'']"

lemma findProjectRootFrom_rejects:
  assumes "d \<noteq> dirname d"
    and "\<forall>mk \<in> set plainMarkers. \<not> pathExists env (pathJoin [d, mk])"
    and "readdir env d = None"
  shows "findProjectRootFrom env d = Inl (ReaddirError d)"
proof -
  have plain: "\<not> includesStr ''package.json'' ''*''" "\<not> includesStr ''pom.xml'' ''*''"
    "\<not> includesStr ''build.gradle'' ''*''" "\<not> includesStr ''go.mod'' ''*''"
    "includesStr ''*.csproj'' ''*''"
    by code_simp+
  have "anyMarker env d possibleMarkers = Inl (ReaddirError d)"
    using assms(2,3) plain
    by (simp add: possibleMarkers_def plainMarkers_def markerPresent_def del: includesStr.simps)
  then show ?thesis using assms(1) by (subst findProjectRootFrom.simps) simp
qed

lemma findProjectRootFrom_up:
  assumes "d \<noteq> dirname d" and "anyMarker env d possibleMarkers = Inr False"
  shows "findProjectRootFrom env d = findProjectRootFrom env (dirname d)"
  using assms by (subst findProjectRootFrom.simps) simp

lemma resolve_rejects:
  assumes "findProjectRoot env fp = Inl e"
  shows "resolveJavaImport env fp ref = Inl e" and "resolveCSharpUsing env fp ref = Inl e"
  using assms by (simp_all add: resolveJavaImport_def resolveCSharpUsing_def Let_def)

subsection \<open>The run\<close>

lemma run_returns:
  "analyzeDirectory env fuel st dir = Some (Inr (ctxs, st')) \<longleftrightarrow>
     (\<exists>files. findAllSupportedFiles env fuel dir = Some (Inr files)
        \<and> analyzeFileRelationships env (parseEach env files st) = Inr st'
        \<and> ctxs = groupIntoServiceContexts st' dir)"
  unfolding analyzeDirectory_def parseAllFiles_def extractCrossFileReferences_def Let_def
  by (auto split: option.splits sum.splits)

lemma run_rejects:
  "analyzeDirectory env fuel st dir = Some (Inl e) \<longleftrightarrow>
     (findAllSupportedFiles env fuel dir = Some (Inl e)
      \<or> (\<exists>files. findAllSupportedFiles env fuel dir = Some (Inr files)
            \<and> analyzeFileRelationships env (parseEach env files st) = Inl e))"
  unfolding analyzeDirectory_def parseAllFiles_def extractCrossFileReferences_def Let_def
  by (auto split: option.splits sum.splits)

lemma run_total:
  assumes "treeWithin env fuel dir"
  shows "\<exists>r. analyzeDirectory env fuel st dir = Some r"
proof -
  from traverse_total [OF assms, of "[]"] obtain r where "traverse env fuel dir [] = Some r"
    by blast
  then show ?thesis
    unfolding analyzeDirectory_def parseAllFiles_def findAllSupportedFiles_def Let_def
    by (auto split: sum.splits)
qed

lemma scan_unreadable:
  "readFile env fp = None \<Longrightarrow> findRelationshipsForFile env st fp m = Inl (ReadFileError fp)"
  by (simp add: findRelationshipsForFile_def)

lemma root_unlistable:
  "readdir env dir = None \<Longrightarrow> analyzeDirectory env (Suc n) st dir = Some (Inl (ReaddirError dir))"
  by (simp add: analyzeDirectory_def parseAllFiles_def findAllSupportedFiles_def)

lemma run_error:
  "analyzeDirectory env fuel st dir = Some (Inl e) \<Longrightarrow> ioFailure env e"
  unfolding analyzeDirectory_def parseAllFiles_def findAllSupportedFiles_def Let_def
  by (auto split: option.splits sum.splits dest: traverse_error(1) analyzeFileRelationships_error)

lemma run_mono:
  assumes "analyzeDirectory env fuel st dir = Some r"
  shows "analyzeDirectory env (fuel + k) st dir = Some r"
proof -
  from assms obtain t where t: "traverse env fuel dir [] = Some t"
    unfolding analyzeDirectory_def parseAllFiles_def findAllSupportedFiles_def
    by (auto split: option.splits)
  have "traverse env (fuel + k) dir [] = Some t" using t by (rule traverse_mono(1))
  then show ?thesis
    using assms t unfolding analyzeDirectory_def parseAllFiles_def findAllSupportedFiles_def
    by simp
qed

lemma parse_contained:
  assumes "findAllSupportedFiles env fuel dir = Some (Inr files)"
  shows "parseAllFiles env fuel st dir = Some (Inr (parseEach env files st))
    \<and> fst ` set (codeModules (parseEach env files st)) =
        fst ` set (codeModules st) \<union> {f \<in> set files. parseFile env f \<noteq> None}"
  using assms by (simp add: parseAllFiles_def parseEach_keys)

section \<open>The example, evaluated\<close>

lemma ex_files:
  "findAllSupportedFiles exampleEnv 3 ''/p'' =
     Some (Inr [''/p/OrderService.java'', ''/p/UserController.java''])"
  by code_simp

lemma ex_parseEach:
  "parseEach exampleEnv [''/p/OrderService.java'', ''/p/UserController.java''] newContextAnalyzer =
     exampleParsed"
  by code_simp

lemma ex_order:
  "findRelationshipsForFile exampleEnv exampleParsed ''/p/OrderService.java'' orderModule =
     Inr exampleParsed"
  by code_simp

lemma ex_user:
  "findRelationshipsForFile exampleEnv exampleParsed ''/p/UserController.java'' userModule =
     Inr exampleAnalyzed"
  by code_simp

lemma ex_rel: "analyzeFileRelationships exampleEnv exampleParsed = Inr exampleAnalyzed"
  unfolding analyzeFileRelationships_def
  by (simp add: exampleParsed_def [THEN arg_cong [where f = codeModules], simplified]
      ex_order ex_user)

lemma ex_services:
  "extractServiceName ''/p/UserController.java'' = ''User''"
  "extractServiceName ''/p/OrderService.java'' = ''Order''"
  "extractServiceName ''/p/build/Gen.java'' = ''build''"
  unfolding extractServiceName_refines by code_simp+

lemma ex_categories:
  "categorizeFile ''/p/OrderService.java'' = ''service''"
  "categorizeFile ''/p/UserController.java'' = ''controller''"
  by code_simp+

lemma ex_groups:
  "codeModules st = codeModules exampleParsed \<Longrightarrow>
     groupFilesByService st =
       [(''Order'', [''/p/OrderService.java'']), (''User'', [''/p/UserController.java''])]"
  by (simp add: groupFilesByService_def addToGroup_def ex_services exampleParsed_def Let_def)

lemma ex_contexts:
  assumes "codeModules st = codeModules exampleParsed"
  shows "groupIntoServiceContexts st ''/p'' =
     [orderContext\<lparr>relationships :=
        filter (\<lambda>rel. sourceFile rel = ''/p/OrderService.java''
                      \<or> targetFile rel = ''/p/OrderService.java'') (fileRelationships st)\<rparr>,
      userContext\<lparr>relationships :=
        filter (\<lambda>rel. sourceFile rel = ''/p/UserController.java''
                      \<or> targetFile rel = ''/p/UserController.java'') (fileRelationships st)\<rparr>]"
  unfolding groupIntoServiceContexts_eq ex_groups [OF assms]
  by (simp add: createServiceContext_def addModule_def assms exampleParsed_def ex_categories
      Let_def orderContext_def userContext_def emptyContext_def orderModule_def userModule_def)

lemma ex_ctx: "groupIntoServiceContexts exampleAnalyzed ''/p'' = [orderContext, userContext]"
  by (simp add: ex_contexts exampleAnalyzed_def orderContext_def userContext_def
      emptyContext_def importEdge_def extendsEdge_def)

lemma ex_parse: "parseAllFiles exampleEnv 3 newContextAnalyzer ''/p'' = Some (Inr exampleParsed)"
  unfolding parseAllFiles_def ex_files by (simp only: option.case sum.case ex_parseEach)

lemma ex_run:
  "analyzeDirectory exampleEnv 3 newContextAnalyzer ''/p'' =
     Some (Inr ([orderContext, userContext], exampleAnalyzed))"
  unfolding analyzeDirectory_def ex_parse
  by (simp only: option.case sum.case ex_rel Let_def extractCrossFileReferences_def ex_ctx)

lemma ex_rel2: "analyzeFileRelationships exampleEnv exampleAnalyzed = Inr exampleTwice"
proof -
  let ?r = "[importEdge, extendsEdge]"
  have a: "analyzeFileRelationships exampleEnv (withEarlier ?r exampleParsed) =
      Inr (withEarlier ?r exampleAnalyzed)"
    by (simp only: analyzeFileRelationships_withEarlier ex_rel liftE_def sum.case)
  have b: "withEarlier ?r exampleParsed = exampleAnalyzed"
    by (simp add: exampleAnalyzed_def withEarlier_def exampleParsed_def)
  have c: "withEarlier ?r exampleAnalyzed = exampleTwice"
    by (simp add: exampleAnalyzed_def exampleTwice_def withEarlier_def)
  show ?thesis using a unfolding b c .
qed

lemma ex_broken:
  "analyzeDirectory brokenEnv 2 newContextAnalyzer ''/q'' = Some (Inl (StatError ''/q/dangling''))"
  by code_simp

lemma ex_import:
  "analyzeDirectory importEnv 2 newContextAnalyzer ''/r'' = Some (Inl (ReaddirError ''/r/lib''))"
  by code_simp





lemma ex_broken_files:
  "findAllSupportedFiles brokenEnv 2 ''/q'' = Some (Inl (StatError ''/q/dangling''))"
  by code_simp

lemma ex_import_files:
  "findAllSupportedFiles importEnv 2 ''/r'' = Some (Inr [''/r/a.go''])"
  "parseEach importEnv [''/r/a.go''] newContextAnalyzer = goParsed"
  by code_simp+

lemma ex_import_pass:
  "analyzeFileRelationships importEnv goParsed = Inl (ReaddirError ''/r/lib'')"
  by code_simp

lemma ex_nested:
  "findAllSupportedFiles nestedEnv 2 ''/n'' = Some (Inr [''/n/src/a.go''])"
  "enteredWithin nestedEnv 1 ''/n'' ''/n/src''"
  "readdir nestedEnv ''/n/src'' = Some [''a.go'']"
  "treeWithin nestedEnv 2 ''/n''"
  by code_simp+

lemma ex_lib_path:
  "startsWith ''./lib'' ''./''"
  "pathResolve (cwd importEnv) [dirname ''/r/a.go'', ''./lib''] = ''/r/lib''"
  "pathExists importEnv ''/r/lib''"
  "readdir importEnv ''/r/lib'' = None"
  by code_simp+

lemma ex_locked:
  "dirname ''/l/app/A.java'' = ''/l/app''"
  "dirname ''/l/app'' = ''/l''"
  "dirname ''/l'' = ''/''"
  "anyMarker lockedEnv ''/l/app'' possibleMarkers = Inr False"
  "filter (\<lambda>mk. pathExists lockedEnv (pathJoin [''/l'', mk])) plainMarkers = []"
  "readdir lockedEnv ''/l'' = None"
  by code_simp+

lemma ex_locked_run:
  "findAllSupportedFiles lockedEnv 2 ''/l/app'' = Some (Inr [''/l/app/A.java''])"
  "parseEach lockedEnv [''/l/app/A.java''] newContextAnalyzer = lockedParsed"
  "analyzeFileRelationships lockedEnv lockedParsed = Inl (ReaddirError ''/l'')"
  by code_simp+







section \<open>The claims\<close>

subsection \<open>The partition of the files\<close>




subsection \<open>The relationship filter\<close>

text \<open>
  Claim C2. The member files of a context are the files of the module table with its
  service name, and a relationship is in a context if and only if it is in the
  collection and its source or its target is a member file. Hence a relationship
  from a file of one service to a file of another service is in the contexts of these
  two services and in no other context; both contexts exist and context names are
  unique.
\<close>

theorem relationship_filter_correct:
  "(\<forall>(n, fs) \<in> set (groupFilesByService st). fs = memberFiles st n)
   \<and> (\<forall>c \<in> set (groupIntoServiceContexts st b). \<forall>r.
         r \<in> set (relationships c) \<longleftrightarrow>
           r \<in> set (fileRelationships st)
         \<and> (sourceFile r \<in> set (memberFiles st (serviceName c))
            \<or> targetFile r \<in> set (memberFiles st (serviceName c))))
   \<and> (rel \<in> set (fileRelationships st)
        \<and> sourceFile rel \<in> fst ` set (codeModules st)
        \<and> targetFile rel \<in> fst ` set (codeModules st)
        \<and> extractServiceName (sourceFile rel) \<noteq> extractServiceName (targetFile rel)
      \<longrightarrow> (\<forall>c \<in> set (groupIntoServiceContexts st b).
              rel \<in> set (relationships c) \<longleftrightarrow>
                serviceName c = extractServiceName (sourceFile rel)
              \<or> serviceName c = extractServiceName (targetFile rel))
         \<and> distinct (map serviceName (groupIntoServiceContexts st b))
         \<and> extractServiceName (sourceFile rel) \<in> serviceName ` set (groupIntoServiceContexts st b)
         \<and> extractServiceName (targetFile rel) \<in> serviceName ` set (groupIntoServiceContexts st b))"
proof (intro conjI impI)
  show "\<forall>(n, fs) \<in> set (groupFilesByService st). fs = memberFiles st n"
    using groupFilesByService_entry(1) by (auto simp: memberFiles_def)
  show "\<forall>c \<in> set (groupIntoServiceContexts st b). \<forall>r.
         r \<in> set (relationships c) \<longleftrightarrow>
           r \<in> set (fileRelationships st)
         \<and> (sourceFile r \<in> set (memberFiles st (serviceName c))
            \<or> targetFile r \<in> set (memberFiles st (serviceName c)))"
    by (auto simp: context_files memberFiles_def)
next
  assume h: "rel \<in> set (fileRelationships st)
        \<and> sourceFile rel \<in> fst ` set (codeModules st)
        \<and> targetFile rel \<in> fst ` set (codeModules st)
        \<and> extractServiceName (sourceFile rel) \<noteq> extractServiceName (targetFile rel)"
  have 3: "serviceName ` set (groupIntoServiceContexts st b) =
      extractServiceName ` fst ` set (codeModules st)"
    using groupFilesByService_names(2) [of st] contexts_names [of st b]
    by (metis set_map)
  show "\<forall>c \<in> set (groupIntoServiceContexts st b).
              rel \<in> set (relationships c) \<longleftrightarrow>
                serviceName c = extractServiceName (sourceFile rel)
              \<or> serviceName c = extractServiceName (targetFile rel)"
    using h by (auto simp: context_files)
  show "distinct (map serviceName (groupIntoServiceContexts st b))"
    by (simp add: contexts_names groupFilesByService_names(1))
  show "extractServiceName (sourceFile rel) \<in> serviceName ` set (groupIntoServiceContexts st b)"
    unfolding 3 using h by blast
  show "extractServiceName (targetFile rel) \<in> serviceName ` set (groupIntoServiceContexts st b)"
    unfolding 3 using h by blast
qed

theorem relationship_filter_correct_witness:
  "extendsEdge \<in> set (fileRelationships exampleAnalyzed)
   \<and> sourceFile extendsEdge \<in> fst ` set (codeModules exampleAnalyzed)
   \<and> targetFile extendsEdge \<in> fst ` set (codeModules exampleAnalyzed)
   \<and> extractServiceName (sourceFile extendsEdge) \<noteq> extractServiceName (targetFile extendsEdge)
   \<and> groupIntoServiceContexts exampleAnalyzed ''/p'' = [orderContext, userContext]
   \<and> extendsEdge \<in> set (relationships orderContext)
   \<and> extendsEdge \<in> set (relationships userContext)
   \<and> relationships orderContext =
       filter (\<lambda>r. sourceFile r \<in> set (memberFiles exampleAnalyzed ''Order'')
                 \<or> targetFile r \<in> set (memberFiles exampleAnalyzed ''Order''))
         (fileRelationships exampleAnalyzed)"
proof -
  have h: "extendsEdge \<in> set (fileRelationships exampleAnalyzed)
     \<and> sourceFile extendsEdge \<in> fst ` set (codeModules exampleAnalyzed)
     \<and> targetFile extendsEdge \<in> fst ` set (codeModules exampleAnalyzed)
     \<and> extractServiceName (sourceFile extendsEdge) \<noteq> extractServiceName (targetFile extendsEdge)"
    by (simp add: exampleAnalyzed_def exampleParsed_def extendsEdge_def ex_services)
  have n: "serviceName orderContext = extractServiceName (targetFile extendsEdge)"
    "serviceName userContext = extractServiceName (sourceFile extendsEdge)"
    by (simp_all add: orderContext_def userContext_def emptyContext_def extendsEdge_def ex_services)
  from relationship_filter_correct [of exampleAnalyzed "''/p''" extendsEdge] h
  have a: "\<forall>c \<in> set (groupIntoServiceContexts exampleAnalyzed ''/p'').
         extendsEdge \<in> set (relationships c) \<longleftrightarrow>
           serviceName c = extractServiceName (sourceFile extendsEdge)
         \<or> serviceName c = extractServiceName (targetFile extendsEdge)"
    by blast
  have b: "extendsEdge \<in> set (relationships orderContext)"
    "extendsEdge \<in> set (relationships userContext)"
    using a n unfolding ex_ctx by simp_all
  have c: "relationships orderContext =
       filter (\<lambda>r. sourceFile r \<in> set (memberFiles exampleAnalyzed ''Order'')
                 \<or> targetFile r \<in> set (memberFiles exampleAnalyzed ''Order''))
         (fileRelationships exampleAnalyzed)"
    by (simp add: orderContext_def memberFiles_def exampleAnalyzed_def exampleParsed_def
        ex_services importEdge_def extendsEdge_def)
  show ?thesis using h ex_ctx b c by blast
qed

subsection \<open>Service names\<close>

text \<open>
  Claim C3. \<open>extractServiceName\<close> is the procedure of the specification: on the base
  name without its extension, the seven suffixes in order, compared without regard to
  case, the first one that leaves a name in front of it giving that name (the part of
  it after the last line terminator); otherwise the name of the parent directory, or
  \<open>Root\<close> when that is the current-directory marker. In particular a stem made of a
  non-empty name without line terminators and one of the suffixes gives the name, and
  the four examples of the specification hold.
\<close>

theorem extractServiceName_deterministic:
  "extractServiceName fp = serviceNameSpec fp
   \<and> (\<forall>nm sfx w. basenameExt fp (extname fp) = nm @ sfx \<and> nm \<noteq> []
         \<and> (\<forall>c \<in> set nm. \<not> isLineTerminator c) \<and> w \<in> set suffixWords
         \<and> toLowerCase sfx = toLowerCase w \<longrightarrow> extractServiceName fp = nm)
   \<and> extractServiceName ''UserController.go'' = ''User''
   \<and> extractServiceName ''OrderService.java'' = ''Order''
   \<and> extractServiceName ''utils/helpers.go'' = ''utils''
   \<and> extractServiceName (d @ ''/utils/helpers.go'') = ''utils''
   \<and> extractServiceName ''main.go'' = ''Root''"
proof -
  have a: "extractServiceName ''UserController.go'' = ''User''"
    unfolding extractServiceName_refines by code_simp
  have b: "extractServiceName ''OrderService.java'' = ''Order''"
    unfolding extractServiceName_refines by code_simp
  have c: "extractServiceName ''utils/helpers.go'' = ''utils''"
    unfolding extractServiceName_refines by code_simp
  have e: "extractServiceName ''main.go'' = ''Root''"
    unfolding extractServiceName_refines by code_simp
  have g: "\<forall>nm sfx w. basenameExt fp (extname fp) = nm @ sfx \<and> nm \<noteq> []
         \<and> (\<forall>c \<in> set nm. \<not> isLineTerminator c) \<and> w \<in> set suffixWords
         \<and> toLowerCase sfx = toLowerCase w \<longrightarrow> extractServiceName fp = nm"
    by (intro allI impI) (elim conjE, rule serviceName_of_suffix)
  show ?thesis
    by (intro conjI) (rule extractServiceName_refines g a b c helpers_in_utils e)+
qed

theorem extractServiceName_deterministic_witness:
  "basenameExt ''src/paymentHANDLER.cs'' (extname ''src/paymentHANDLER.cs'') = ''payment'' @ ''HANDLER''
   \<and> ''payment'' \<noteq> []
   \<and> filter isLineTerminator ''payment'' = []
   \<and> ''Handler'' \<in> set suffixWords
   \<and> toLowerCase ''HANDLER'' = toLowerCase ''Handler''
   \<and> extractServiceName ''src/paymentHANDLER.cs'' = ''payment''"
proof -
  have h: "basenameExt ''src/paymentHANDLER.cs'' (extname ''src/paymentHANDLER.cs'') = ''payment'' @ ''HANDLER''
   \<and> ''payment'' \<noteq> []
   \<and> filter isLineTerminator ''payment'' = []
   \<and> ''Handler'' \<in> set suffixWords
   \<and> toLowerCase ''HANDLER'' = toLowerCase ''Handler''"
    by code_simp
  then have q: "\<forall>c \<in> set ''payment''. \<not> isLineTerminator c"
    unfolding filter_empty_conv by blast
  from extractServiceName_deterministic [of "''src/paymentHANDLER.cs''" "[]"] h q
  show ?thesis by blast
qed

subsection \<open>Unresolvable references\<close>




subsection \<open>The endpoints of an edge\<close>

text \<open>
  Claim C6, amended. The source of every edge a scan appends is the file being
  scanned, a key of the module table. The target of an extends, implements or
  references edge is a key of the module table. The target of an import edge is a path
  the resolver found on disk, an existing candidate path or an entry of an existing
  directory; it need not be a key of the module table.
\<close>

theorem edge_endpoints:
  "(findRelationshipsForFile env st fp m = Inr st' \<longrightarrow>
      (\<exists>new. fileRelationships st' = fileRelationships st @ new
           \<and> (\<forall>e \<in> set new. sourceFile e = fp)))
   \<and> (analyzeFileRelationships env st = Inr st'' \<longrightarrow>
      (\<exists>new. fileRelationships st'' = fileRelationships st @ new
           \<and> (\<forall>e \<in> set new.
                 sourceFile e \<in> fst ` set (codeModules st)
               \<and> targetFile e \<noteq> []
               \<and> (if relationType e = Import then onDisk env e
                  else targetFile e \<in> fst ` set (codeModules st)))))"
proof (intro conjI impI)
  assume "findRelationshipsForFile env st fp m = Inr st'"
  from findRelationshipsForFile_appended [OF this]
  show "\<exists>new. fileRelationships st' = fileRelationships st @ new \<and> (\<forall>e \<in> set new. sourceFile e = fp)"
    unfolding appended_def using edgeResolved_target(1) by blast
next
  assume "analyzeFileRelationships env st = Inr st''"
  from analyzeFileRelationships_appended [OF this]
  obtain new where new: "fileRelationships st'' = fileRelationships st @ new"
    "\<forall>e \<in> set new. edgeOfTable env st e"
    unfolding appended_def by blast
  have "sourceFile e \<in> fst ` set (codeModules st) \<and> targetFile e \<noteq> []
      \<and> (if relationType e = Import then onDisk env e
          else targetFile e \<in> fst ` set (codeModules st))" if "e \<in> set new" for e
  proof -
    from new(2) that obtain f md where f: "(f, md) \<in> set (codeModules st)"
      "edgeResolved env st f (language md) e"
      unfolding edgeOfTable_def by blast
    have "sourceFile e \<in> fst ` set (codeModules st)"
      using edgeResolved_target(1) [OF f(2)] f(1) by force
    then show ?thesis using edgeResolved_target(2,3) [OF f(2)] by simp
  qed
  then show "\<exists>new. fileRelationships st'' = fileRelationships st @ new
           \<and> (\<forall>e \<in> set new.
                 sourceFile e \<in> fst ` set (codeModules st)
               \<and> targetFile e \<noteq> []
               \<and> (if relationType e = Import then onDisk env e
                  else targetFile e \<in> fst ` set (codeModules st)))"
    using new(1) by blast
qed

theorem edge_endpoints_witness:
  "findRelationshipsForFile exampleEnv exampleParsed ''/p/UserController.java'' userModule =
     Inr exampleAnalyzed
   \<and> analyzeFileRelationships exampleEnv exampleParsed = Inr exampleAnalyzed
   \<and> fileRelationships exampleAnalyzed = fileRelationships exampleParsed @ [importEdge, extendsEdge]
   \<and> sourceFile importEdge = ''/p/UserController.java''
   \<and> sourceFile extendsEdge = ''/p/UserController.java''
   \<and> sourceFile importEdge \<in> fst ` set (codeModules exampleParsed)
   \<and> relationType importEdge = Import
   \<and> onDisk exampleEnv importEdge
   \<and> relationType extendsEdge = Extends
   \<and> targetFile extendsEdge \<in> fst ` set (codeModules exampleParsed)"
proof -
  have r: "fileRelationships exampleAnalyzed = fileRelationships exampleParsed @ [importEdge, extendsEdge]"
    by (simp add: exampleAnalyzed_def exampleParsed_def)
  have t: "relationType importEdge = Import" "relationType extendsEdge = Extends"
    by (simp_all add: importEdge_def extendsEdge_def)
  note inst = edge_endpoints
    [of exampleEnv exampleParsed "''/p/UserController.java''" userModule exampleAnalyzed
      exampleAnalyzed]
  from inst ex_user obtain new1 where
    n1: "fileRelationships exampleAnalyzed = fileRelationships exampleParsed @ new1"
      "\<forall>e \<in> set new1. sourceFile e = ''/p/UserController.java''"
    by blast
  from inst ex_rel obtain new2 where
    n2: "fileRelationships exampleAnalyzed = fileRelationships exampleParsed @ new2"
      "\<forall>e \<in> set new2.
               sourceFile e \<in> fst ` set (codeModules exampleParsed)
             \<and> targetFile e \<noteq> []
             \<and> (if relationType e = Import then onDisk exampleEnv e
                else targetFile e \<in> fst ` set (codeModules exampleParsed))"
    by blast
  have e1: "new1 = [importEdge, extendsEdge]" using n1(1) r by simp
  have e2: "new2 = [importEdge, extendsEdge]" using n2(1) r by simp
  have a: "sourceFile importEdge = ''/p/UserController.java''"
    "sourceFile extendsEdge = ''/p/UserController.java''"
    using n1(2) unfolding e1 by simp_all
  have b: "sourceFile importEdge \<in> fst ` set (codeModules exampleParsed)"
    "onDisk exampleEnv importEdge"
    "targetFile extendsEdge \<in> fst ` set (codeModules exampleParsed)"
    using n2(2) t unfolding e2 by simp_all
  show ?thesis using ex_user ex_rel r a b t by blast
qed

text \<open>
  As stated, with every target a key of the module table, the claim fails: the import
  of the example resolves to the generated source under \<^verbatim>\<open>build\<close>, which is on disk but
  was never parsed.
\<close>

theorem edge_target_counterexample:
  "analyzeDirectory exampleEnv 3 newContextAnalyzer ''/p'' =
     Some (Inr ([orderContext, userContext], exampleAnalyzed))
   \<and> importEdge \<in> set (fileRelationships exampleAnalyzed)
   \<and> targetFile importEdge \<notin> fst ` set (codeModules exampleAnalyzed)"
  using ex_run by (simp add: exampleAnalyzed_def exampleParsed_def importEdge_def)

subsection \<open>Failures\<close>

text \<open>
  Claim C7, amended. The parse phase contains failures: once the traversal has
  returned it returns, and a file that cannot be read gets no module. Nothing else is
  contained. A run returns exactly when the traversal returns and the relationship pass
  over the table that the parse phase leaves returns, and it rejects exactly with the
  error of the one of the two that rejects. The traversal returns only if every
  directory it enters can be listed and every entry of such a directory can be
  inspected. The relationship pass returns exactly when every file of the module
  table, also one kept from an earlier run, can be read and no reference of it makes
  a resolver reject; a file that cannot be read rejects its scan, a relative Go import
  that names an existing path that cannot be listed rejects, and so does the search
  for the project root when it reaches a directory without a plain marker that cannot
  be listed. A root that cannot be listed rejects the run, the error of a rejected run
  is a failure of the host, a run over a tree that the fuel exhausts always ends, and
  more fuel does not change a result.
\<close>

theorem failure_propagation:
  "(findAllSupportedFiles env fuel dir = Some (Inr files) \<longrightarrow>
      parseAllFiles env fuel st dir = Some (Inr (parseEach env files st))
    \<and> fst ` set (codeModules (parseEach env files st)) =
        fst ` set (codeModules st) \<union> {f \<in> set files. parseFile env f \<noteq> None})
   \<and> (readFile env f = None \<longrightarrow> parseFile env f = None)
   \<and> (analyzeDirectory env fuel st dir = Some (Inr (ctxs, st')) \<longleftrightarrow>
        (\<exists>found. findAllSupportedFiles env fuel dir = Some (Inr found)
           \<and> analyzeFileRelationships env (parseEach env found st) = Inr st'
           \<and> ctxs = groupIntoServiceContexts st' dir))
   \<and> (analyzeDirectory env fuel st dir = Some (Inl e) \<longleftrightarrow>
        (findAllSupportedFiles env fuel dir = Some (Inl e)
         \<or> (\<exists>found. findAllSupportedFiles env fuel dir = Some (Inr found)
               \<and> analyzeFileRelationships env (parseEach env found st) = Inl e)))
   \<and> (findAllSupportedFiles env fuel dir = Some (Inr files) \<and> enteredWithin env k dir d \<longrightarrow>
        (\<exists>items. readdir env d = Some items
           \<and> (\<forall>i \<in> set items. stat env (pathJoin [d, i]) \<noteq> None)))
   \<and> ((\<exists>s'. analyzeFileRelationships env st = Inr s') \<longleftrightarrow>
        (\<forall>(p, md) \<in> set (codeModules st).
           \<exists>content. readFile env p = Some content
             \<and> (\<forall>r \<in> set (references (language md) content).
                   \<exists>res. resolveReference env st p (language md) r = Inr res)))
   \<and> (readFile env fp = None \<longrightarrow>
        findRelationshipsForFile env st fp m = Inl (ReadFileError fp))
   \<and> ((startsWith ref ''./'' \<or> startsWith ref ''../'')
        \<and> pathExists env (pathResolve (cwd env) [dirname fp, ref])
        \<and> readdir env (pathResolve (cwd env) [dirname fp, ref]) = None \<longrightarrow>
        resolveGoImport env fp ref =
          Inl (ReaddirError (pathResolve (cwd env) [dirname fp, ref])))
   \<and> (cur \<noteq> dirname cur
        \<and> (\<forall>mk \<in> set plainMarkers. \<not> pathExists env (pathJoin [cur, mk]))
        \<and> readdir env cur = None \<longrightarrow>
        findProjectRootFrom env cur = Inl (ReaddirError cur))
   \<and> (cur \<noteq> dirname cur \<and> anyMarker env cur possibleMarkers = Inr False \<longrightarrow>
        findProjectRootFrom env cur = findProjectRootFrom env (dirname cur))
   \<and> (findProjectRootFrom env (dirname fp) = Inl e \<longrightarrow>
        resolveJavaImport env fp ref = Inl e \<and> resolveCSharpUsing env fp ref = Inl e)
   \<and> (readdir env dir = None \<longrightarrow>
        analyzeDirectory env (Suc n) st dir = Some (Inl (ReaddirError dir)))
   \<and> (analyzeDirectory env fuel st dir = Some (Inl e) \<longrightarrow> ioFailure env e)
   \<and> (treeWithin env fuel dir \<longrightarrow> (\<exists>res. analyzeDirectory env fuel st dir = Some res))
   \<and> (analyzeDirectory env fuel st dir = Some res \<longrightarrow>
        analyzeDirectory env (fuel + j) st dir = Some res)"
proof -
  have a: "findAllSupportedFiles env fuel dir = Some (Inr files) \<longrightarrow>
      parseAllFiles env fuel st dir = Some (Inr (parseEach env files st))
    \<and> fst ` set (codeModules (parseEach env files st)) =
        fst ` set (codeModules st) \<union> {f \<in> set files. parseFile env f \<noteq> None}"
    using parse_contained by blast
  have b: "readFile env f = None \<longrightarrow> parseFile env f = None"
    using parseFile_unreadable by blast
  have c: "findAllSupportedFiles env fuel dir = Some (Inr files) \<and> enteredWithin env k dir d \<longrightarrow>
        (\<exists>items. readdir env d = Some items
           \<and> (\<forall>i \<in> set items. stat env (pathJoin [d, i]) \<noteq> None))"
    unfolding findAllSupportedFiles_def using entered_listed by blast
  have d: "readFile env fp = None \<longrightarrow>
        findRelationshipsForFile env st fp m = Inl (ReadFileError fp)"
    using scan_unreadable by blast
  have e: "(startsWith ref ''./'' \<or> startsWith ref ''../'')
        \<and> pathExists env (pathResolve (cwd env) [dirname fp, ref])
        \<and> readdir env (pathResolve (cwd env) [dirname fp, ref]) = None \<longrightarrow>
        resolveGoImport env fp ref =
          Inl (ReaddirError (pathResolve (cwd env) [dirname fp, ref]))"
    using resolveGoImport_rejects by blast
  have g: "cur \<noteq> dirname cur
        \<and> (\<forall>mk \<in> set plainMarkers. \<not> pathExists env (pathJoin [cur, mk]))
        \<and> readdir env cur = None \<longrightarrow>
        findProjectRootFrom env cur = Inl (ReaddirError cur)"
    using findProjectRootFrom_rejects by blast
  have g2: "cur \<noteq> dirname cur \<and> anyMarker env cur possibleMarkers = Inr False \<longrightarrow>
        findProjectRootFrom env cur = findProjectRootFrom env (dirname cur)"
    using findProjectRootFrom_up by blast
  have g3: "findProjectRootFrom env (dirname fp) = Inl e \<longrightarrow>
        resolveJavaImport env fp ref = Inl e \<and> resolveCSharpUsing env fp ref = Inl e"
    using resolve_rejects [of env fp e ref] by (simp add: findProjectRoot_def)
  have h: "readdir env dir = None \<longrightarrow>
        analyzeDirectory env (Suc n) st dir = Some (Inl (ReaddirError dir))"
    using root_unlistable by blast
  have i: "analyzeDirectory env fuel st dir = Some (Inl e) \<longrightarrow> ioFailure env e"
    using run_error by blast
  have l: "treeWithin env fuel dir \<longrightarrow> (\<exists>res. analyzeDirectory env fuel st dir = Some res)"
    using run_total by blast
  have o: "analyzeDirectory env fuel st dir = Some res \<longrightarrow>
        analyzeDirectory env (fuel + j) st dir = Some res"
    using run_mono by blast
  show ?thesis
    by (intro conjI) (rule a b run_returns run_rejects c pass_succeeds d e g g2 g3 h i l o)+
qed

theorem failure_propagation_witness:
  "findAllSupportedFiles exampleEnv 3 ''/p'' =
     Some (Inr [''/p/OrderService.java'', ''/p/UserController.java''])
   \<and> parseAllFiles exampleEnv 3 newContextAnalyzer ''/p'' =
       Some (Inr (parseEach exampleEnv [''/p/OrderService.java'', ''/p/UserController.java'']
                    newContextAnalyzer))
   \<and> readFile exampleEnv ''/p/missing.go'' = None
   \<and> parseFile exampleEnv ''/p/missing.go'' = None
   \<and> analyzeFileRelationships exampleEnv
         (parseEach exampleEnv [''/p/OrderService.java'', ''/p/UserController.java'']
            newContextAnalyzer) = Inr exampleAnalyzed
   \<and> analyzeDirectory exampleEnv 3 newContextAnalyzer ''/p'' =
       Some (Inr ([orderContext, userContext], exampleAnalyzed))
   \<and> findAllSupportedFiles brokenEnv 2 ''/q'' = Some (Inl (StatError ''/q/dangling''))
   \<and> analyzeDirectory brokenEnv 2 newContextAnalyzer ''/q'' = Some (Inl (StatError ''/q/dangling''))
   \<and> ioFailure brokenEnv (StatError ''/q/dangling'')
   \<and> findAllSupportedFiles importEnv 2 ''/r'' = Some (Inr [''/r/a.go''])
   \<and> analyzeFileRelationships importEnv (parseEach importEnv [''/r/a.go''] newContextAnalyzer) =
       Inl (ReaddirError ''/r/lib'')
   \<and> analyzeDirectory importEnv 2 newContextAnalyzer ''/r'' = Some (Inl (ReaddirError ''/r/lib''))
   \<and> findAllSupportedFiles nestedEnv 2 ''/n'' = Some (Inr [''/n/src/a.go''])
   \<and> enteredWithin nestedEnv 1 ''/n'' ''/n/src''
   \<and> readdir nestedEnv ''/n/src'' = Some [''a.go'']
   \<and> stat nestedEnv (pathJoin [''/n/src'', ''a.go'']) \<noteq> None
   \<and> analyzeFileRelationships exampleEnv exampleParsed = Inr exampleAnalyzed
   \<and> (\<exists>content. readFile exampleEnv ''/p/UserController.java'' = Some content)
   \<and> readFile unreadableEnv ''/p/OrderService.java'' = None
   \<and> (\<nexists>s'. analyzeFileRelationships unreadableEnv exampleParsed = Inr s')
   \<and> findRelationshipsForFile unreadableEnv exampleParsed ''/p/OrderService.java'' orderModule =
       Inl (ReadFileError ''/p/OrderService.java'')
   \<and> startsWith ''./lib'' ''./''
   \<and> pathResolve (cwd importEnv) [dirname ''/r/a.go'', ''./lib''] = ''/r/lib''
   \<and> pathExists importEnv ''/r/lib''
   \<and> readdir importEnv ''/r/lib'' = None
   \<and> resolveGoImport importEnv ''/r/a.go'' ''./lib'' = Inl (ReaddirError ''/r/lib'')
   \<and> dirname ''/l/app/A.java'' = ''/l/app''
   \<and> dirname ''/l/app'' = ''/l''
   \<and> dirname ''/l'' = ''/''
   \<and> anyMarker lockedEnv ''/l/app'' possibleMarkers = Inr False
   \<and> filter (\<lambda>mk. pathExists lockedEnv (pathJoin [''/l'', mk])) plainMarkers = []
   \<and> readdir lockedEnv ''/l'' = None
   \<and> findProjectRootFrom lockedEnv ''/l/app'' = Inl (ReaddirError ''/l'')
   \<and> resolveJavaImport lockedEnv ''/l/app/A.java'' ''x.Y'' = Inl (ReaddirError ''/l'')
   \<and> resolveCSharpUsing lockedEnv ''/l/app/A.java'' ''x.Y'' = Inl (ReaddirError ''/l'')
   \<and> findAllSupportedFiles lockedEnv 2 ''/l/app'' = Some (Inr [''/l/app/A.java''])
   \<and> analyzeFileRelationships lockedEnv (parseEach lockedEnv [''/l/app/A.java''] newContextAnalyzer) =
       Inl (ReaddirError ''/l'')
   \<and> analyzeDirectory lockedEnv 2 newContextAnalyzer ''/l/app'' = Some (Inl (ReaddirError ''/l''))
   \<and> readdir exampleEnv ''/nowhere'' = None
   \<and> analyzeDirectory exampleEnv (Suc 2) newContextAnalyzer ''/nowhere'' =
       Some (Inl (ReaddirError ''/nowhere''))
   \<and> treeWithin nestedEnv 2 ''/n''
   \<and> (\<exists>res. analyzeDirectory nestedEnv 2 newContextAnalyzer ''/n'' = Some res)
   \<and> analyzeDirectory exampleEnv (3 + 4) newContextAnalyzer ''/p'' =
       Some (Inr ([orderContext, userContext], exampleAnalyzed))"
proof -
  let ?files = "[''/p/OrderService.java'', ''/p/UserController.java'']"
  note t1 = failure_propagation [where env = exampleEnv and fuel = 3 and dir = "''/p''"
      and files = ?files and st = newContextAnalyzer and f = "''/p/missing.go''"
      and ctxs = "[orderContext, userContext]" and st' = exampleAnalyzed
      and res = "Inr ([orderContext, userContext], exampleAnalyzed)" and j = 4]
  have r: "readFile exampleEnv ''/p/missing.go'' = None" "readdir exampleEnv ''/nowhere'' = None"
    by (simp_all add: exampleEnv_def)
  have a1: "parseAllFiles exampleEnv 3 newContextAnalyzer ''/p'' =
       Some (Inr (parseEach exampleEnv ?files newContextAnalyzer))"
    using t1
      [THEN conjunct1] ex_files by simp
  have a2: "parseFile exampleEnv ''/p/missing.go'' = None"
    using t1
      [THEN conjunct2, THEN conjunct1] r(1) by simp
  have a3: "analyzeFileRelationships exampleEnv (parseEach exampleEnv ?files newContextAnalyzer) =
      Inr exampleAnalyzed"
    unfolding ex_parseEach by (rule ex_rel)
  have "\<exists>found. findAllSupportedFiles exampleEnv 3 ''/p'' = Some (Inr found)
           \<and> analyzeFileRelationships exampleEnv (parseEach exampleEnv found newContextAnalyzer) =
               Inr exampleAnalyzed
           \<and> [orderContext, userContext] = groupIntoServiceContexts exampleAnalyzed ''/p''"
    using ex_files a3 ex_ctx by simp
  then have a4: "analyzeDirectory exampleEnv 3 newContextAnalyzer ''/p'' =
       Some (Inr ([orderContext, userContext], exampleAnalyzed))"
    using t1
      [THEN conjunct2, THEN conjunct2, THEN conjunct1] by blast
  have a5: "analyzeDirectory exampleEnv (3 + 4) newContextAnalyzer ''/p'' =
       Some (Inr ([orderContext, userContext], exampleAnalyzed))"
    using t1
      [THEN conjunct2, THEN conjunct2, THEN conjunct2, THEN conjunct2,
       THEN conjunct2, THEN conjunct2, THEN conjunct2, THEN conjunct2,
       THEN conjunct2, THEN conjunct2, THEN conjunct2, THEN conjunct2,
       THEN conjunct2, THEN conjunct2] a4 by blast
  note t2 = failure_propagation [where env = brokenEnv and fuel = 2 and dir = "''/q''"
      and st = newContextAnalyzer and e = "StatError ''/q/dangling''"]
  have b1: "analyzeDirectory brokenEnv 2 newContextAnalyzer ''/q'' =
      Some (Inl (StatError ''/q/dangling''))"
    using t2
      [THEN conjunct2, THEN conjunct2, THEN conjunct2, THEN conjunct1] ex_broken_files by blast
  have b2: "ioFailure brokenEnv (StatError ''/q/dangling'')"
    using t2
      [THEN conjunct2, THEN conjunct2, THEN conjunct2, THEN conjunct2,
       THEN conjunct2, THEN conjunct2, THEN conjunct2, THEN conjunct2,
       THEN conjunct2, THEN conjunct2, THEN conjunct2, THEN conjunct2,
       THEN conjunct1] b1 by blast
  note t3 = failure_propagation [where env = importEnv and fuel = 2 and dir = "''/r''"
      and st = newContextAnalyzer and e = "ReaddirError ''/r/lib''"
      and fp = "''/r/a.go''" and ref = "''./lib''"]
  have c1: "analyzeFileRelationships importEnv (parseEach importEnv [''/r/a.go''] newContextAnalyzer) =
       Inl (ReaddirError ''/r/lib'')"
    unfolding ex_import_files(2) by (rule ex_import_pass)
  have c2: "analyzeDirectory importEnv 2 newContextAnalyzer ''/r'' =
      Some (Inl (ReaddirError ''/r/lib''))"
    using t3
      [THEN conjunct2, THEN conjunct2, THEN conjunct2, THEN conjunct1] ex_import_files(1) c1 by blast
  have c3: "resolveGoImport importEnv ''/r/a.go'' ''./lib'' = Inl (ReaddirError ''/r/lib'')"
    using t3
      [THEN conjunct2, THEN conjunct2, THEN conjunct2, THEN conjunct2,
       THEN conjunct2, THEN conjunct2, THEN conjunct2, THEN conjunct1] ex_lib_path(1,3,4)
    unfolding ex_lib_path(2) by blast
  note t4 = failure_propagation [where env = nestedEnv and fuel = 2 and dir = "''/n''"
      and files = "[''/n/src/a.go'']" and k = 1 and d = "''/n/src''" and st = newContextAnalyzer]
  have "\<exists>items. readdir nestedEnv ''/n/src'' = Some items
           \<and> (\<forall>i \<in> set items. stat nestedEnv (pathJoin [''/n/src'', i]) \<noteq> None)"
    using t4
      [THEN conjunct2, THEN conjunct2, THEN conjunct2, THEN conjunct2,
       THEN conjunct1] ex_nested(1,2) by blast
  then have d1: "stat nestedEnv (pathJoin [''/n/src'', ''a.go'']) \<noteq> None"
    unfolding ex_nested(3) by simp
  have d2: "\<exists>res. analyzeDirectory nestedEnv 2 newContextAnalyzer ''/n'' = Some res"
    using t4
      [THEN conjunct2, THEN conjunct2, THEN conjunct2, THEN conjunct2,
       THEN conjunct2, THEN conjunct2, THEN conjunct2, THEN conjunct2,
       THEN conjunct2, THEN conjunct2, THEN conjunct2, THEN conjunct2,
       THEN conjunct2, THEN conjunct1] ex_nested(4) by blast
  note t5 = failure_propagation [where env = exampleEnv and st = exampleParsed]
  have "\<exists>s'. analyzeFileRelationships exampleEnv exampleParsed = Inr s'"
    using ex_rel by blast
  then have "\<forall>(p, md) \<in> set (codeModules exampleParsed).
           \<exists>content. readFile exampleEnv p = Some content
             \<and> (\<forall>r \<in> set (references (language md) content).
                   \<exists>res. resolveReference exampleEnv exampleParsed p (language md) r = Inr res)"
    using t5
      [THEN conjunct2, THEN conjunct2, THEN conjunct2, THEN conjunct2,
       THEN conjunct2, THEN conjunct1] by blast
  then have e1: "\<exists>content. readFile exampleEnv ''/p/UserController.java'' = Some content"
    by (simp add: exampleParsed_def) blast
  note t6 = failure_propagation [where env = unreadableEnv and st = exampleParsed
      and fp = "''/p/OrderService.java''" and m = orderModule]
  have u: "readFile unreadableEnv ''/p/OrderService.java'' = None"
    by (simp add: unreadableEnv_def)
  have "\<not> (\<forall>(p, md) \<in> set (codeModules exampleParsed).
           \<exists>content. readFile unreadableEnv p = Some content
             \<and> (\<forall>r \<in> set (references (language md) content).
                   \<exists>res. resolveReference unreadableEnv exampleParsed p (language md) r = Inr res))"
    using u by (simp add: exampleParsed_def)
  then have f1: "\<nexists>s'. analyzeFileRelationships unreadableEnv exampleParsed = Inr s'"
    using t6
      [THEN conjunct2, THEN conjunct2, THEN conjunct2, THEN conjunct2,
       THEN conjunct2, THEN conjunct1] by blast
  have f2: "findRelationshipsForFile unreadableEnv exampleParsed ''/p/OrderService.java'' orderModule =
       Inl (ReadFileError ''/p/OrderService.java'')"
    using t6
      [THEN conjunct2, THEN conjunct2, THEN conjunct2, THEN conjunct2,
       THEN conjunct2, THEN conjunct2, THEN conjunct1] u by blast
  note t7 = failure_propagation [where env = lockedEnv and cur = "''/l''"]
  have mk: "\<forall>mk \<in> set plainMarkers. \<not> pathExists lockedEnv (pathJoin [''/l'', mk])"
    using ex_locked(5) unfolding filter_empty_conv by blast
  have up: "''/l'' \<noteq> dirname ''/l''" "''/l/app'' \<noteq> dirname ''/l/app''"
    unfolding ex_locked(2,3) by simp_all
  have g0: "findProjectRootFrom lockedEnv ''/l'' = Inl (ReaddirError ''/l'')"
    using t7
      [THEN conjunct2, THEN conjunct2, THEN conjunct2, THEN conjunct2,
       THEN conjunct2, THEN conjunct2, THEN conjunct2, THEN conjunct2,
       THEN conjunct1] mk up(1) ex_locked(6) by blast
  note t8 = failure_propagation [where env = lockedEnv and cur = "''/l/app''"
      and fp = "''/l/app/A.java''" and ref = "''x.Y''" and e = "ReaddirError ''/l''"
      and fuel = 2 and dir = "''/l/app''" and st = newContextAnalyzer]
  have "findProjectRootFrom lockedEnv ''/l/app'' = findProjectRootFrom lockedEnv (dirname ''/l/app'')"
    using t8
      [THEN conjunct2, THEN conjunct2, THEN conjunct2, THEN conjunct2,
       THEN conjunct2, THEN conjunct2, THEN conjunct2, THEN conjunct2,
       THEN conjunct2, THEN conjunct1] up(2) ex_locked(4) by blast
  then have g1: "findProjectRootFrom lockedEnv ''/l/app'' = Inl (ReaddirError ''/l'')"
    unfolding ex_locked(2) g0 .
  then have "findProjectRootFrom lockedEnv (dirname ''/l/app/A.java'') = Inl (ReaddirError ''/l'')"
    unfolding ex_locked(1) .
  then have g2: "resolveJavaImport lockedEnv ''/l/app/A.java'' ''x.Y'' = Inl (ReaddirError ''/l'')"
    and g3: "resolveCSharpUsing lockedEnv ''/l/app/A.java'' ''x.Y'' = Inl (ReaddirError ''/l'')"
    using t8
      [THEN conjunct2, THEN conjunct2, THEN conjunct2, THEN conjunct2,
       THEN conjunct2, THEN conjunct2, THEN conjunct2, THEN conjunct2,
       THEN conjunct2, THEN conjunct2, THEN conjunct1] by blast+
  have g4: "analyzeFileRelationships lockedEnv (parseEach lockedEnv [''/l/app/A.java''] newContextAnalyzer) =
       Inl (ReaddirError ''/l'')"
    unfolding ex_locked_run(2) by (rule ex_locked_run(3))
  have g5: "analyzeDirectory lockedEnv 2 newContextAnalyzer ''/l/app'' = Some (Inl (ReaddirError ''/l''))"
    using t8
      [THEN conjunct2, THEN conjunct2, THEN conjunct2, THEN conjunct1] ex_locked_run(1) g4 by blast
  note t9 = failure_propagation [where env = exampleEnv and dir = "''/nowhere''" and n = 2
      and st = newContextAnalyzer]
  have h: "analyzeDirectory exampleEnv (Suc 2) newContextAnalyzer ''/nowhere'' =
       Some (Inl (ReaddirError ''/nowhere''))"
    using t9
      [THEN conjunct2, THEN conjunct2, THEN conjunct2, THEN conjunct2,
       THEN conjunct2, THEN conjunct2, THEN conjunct2, THEN conjunct2,
       THEN conjunct2, THEN conjunct2, THEN conjunct2, THEN conjunct1] r(2) by blast
  show ?thesis
    by (intro conjI)
       (rule ex_files a1 r a2 a3 a4 ex_broken_files b1 b2 ex_import_files(1) c1 c2 ex_nested d1
          ex_rel e1 u f1 f2 ex_lib_path c3 ex_locked g1 g2 g3 ex_locked_run(1) g4 g5 h d2 a5)+
qed

text \<open>
  As stated, with the failure of a single file contained, the claim fails twice: a
  dangling entry next to a good source rejects the run during the traversal, and a
  relative import that names a regular file rejects it during the relationship pass.
\<close>

theorem failure_containment_counterexample:
  "readdir brokenEnv ''/q'' = Some [''a.go'', ''dangling'']
   \<and> parseFile brokenEnv ''/q/a.go'' \<noteq> None
   \<and> analyzeDirectory brokenEnv 2 newContextAnalyzer ''/q'' = Some (Inl (StatError ''/q/dangling''))
   \<and> readdir importEnv ''/r'' = Some [''a.go'', ''lib'']
   \<and> parseFile importEnv ''/r/a.go'' \<noteq> None
   \<and> analyzeDirectory importEnv 2 newContextAnalyzer ''/r'' = Some (Inl (ReaddirError ''/r/lib''))"
proof -
  have "readdir brokenEnv ''/q'' = Some [''a.go'', ''dangling'']
     \<and> parseFile brokenEnv ''/q/a.go'' \<noteq> None
     \<and> readdir importEnv ''/r'' = Some [''a.go'', ''lib'']
     \<and> parseFile importEnv ''/r/a.go'' \<noteq> None"
    by code_simp
  then show ?thesis using ex_broken ex_import by blast
qed

subsection \<open>Running the extraction again\<close>

text \<open>
  Claim C8, amended. A run of the relationship extraction appends a list of edges that
  depends on the host and the module table only; a second run over the same inputs
  succeeds as well and appends the same list again, so the collection then holds
  these edges twice.
\<close>

theorem extraction_appends_again:
  assumes "analyzeFileRelationships env st = Inr st1"
  shows "\<exists>new st2.
           fileRelationships st1 = fileRelationships st @ new
         \<and> analyzeFileRelationships env st1 = Inr st2
         \<and> fileRelationships st2 = fileRelationships st1 @ new
         \<and> mset (fileRelationships st2) = mset (fileRelationships st1) + mset new"
proof -
  define st0 where "st0 = st\<lparr>fileRelationships := []\<rparr>"
  have st: "st = withEarlier (fileRelationships st) st0"
    by (simp add: st0_def withEarlier_def)
  have "liftE (withEarlier (fileRelationships st)) (analyzeFileRelationships env st0) = Inr st1"
    using assms analyzeFileRelationships_withEarlier [of env "fileRelationships st" st0] st by simp
  then obtain s0 where s0: "analyzeFileRelationships env st0 = Inr s0"
    and st1: "st1 = withEarlier (fileRelationships st) s0"
    by (auto simp: liftE_def split: sum.splits)
  define new where "new = fileRelationships s0"
  have ap: "appended (edgeOfTable env st0) st0 s0" using s0 by (rule analyzeFileRelationships_appended)
  have s0_eq: "s0 = st0\<lparr>fileRelationships := new\<rparr>"
    using ap unfolding appended_def new_def st0_def by (cases s0; cases st) auto
  have r1: "fileRelationships st1 = fileRelationships st @ new"
    by (simp add: st1 withEarlier_def new_def)
  have st1': "st1 = withEarlier (fileRelationships st @ new) st0"
    unfolding st1 s0_eq by (simp add: withEarlier_def st0_def)
  have run2: "analyzeFileRelationships env st1 = Inr (withEarlier (fileRelationships st @ new) s0)"
    unfolding st1' analyzeFileRelationships_withEarlier s0 by (simp add: liftE_def)
  have r2: "fileRelationships (withEarlier (fileRelationships st @ new) s0) = fileRelationships st1 @ new"
    by (simp add: withEarlier_def r1 new_def)
  show ?thesis using r1 run2 r2 by auto
qed

theorem extraction_appends_again_witness:
  "analyzeFileRelationships exampleEnv exampleParsed = Inr exampleAnalyzed
   \<and> (\<exists>new st2.
           fileRelationships exampleAnalyzed = fileRelationships exampleParsed @ new
         \<and> analyzeFileRelationships exampleEnv exampleAnalyzed = Inr st2
         \<and> fileRelationships st2 = fileRelationships exampleAnalyzed @ new
         \<and> mset (fileRelationships st2) = mset (fileRelationships exampleAnalyzed) + mset new)"
  by (rule conjI [OF ex_rel extraction_appends_again [OF ex_rel]])

text \<open>
  As stated, with the multiset of edges unchanged by a second run, the claim fails on
  the example: two edges after one run, four after two.
\<close>

theorem extraction_idempotence_counterexample:
  "analyzeFileRelationships exampleEnv exampleParsed = Inr exampleAnalyzed
   \<and> analyzeFileRelationships exampleEnv exampleAnalyzed = Inr exampleTwice
   \<and> mset (fileRelationships exampleTwice) \<noteq> mset (fileRelationships exampleAnalyzed)"
proof -
  have "size (mset (fileRelationships exampleTwice)) \<noteq> size (mset (fileRelationships exampleAnalyzed))"
    by (simp add: exampleTwice_def exampleAnalyzed_def)
  then have "mset (fileRelationships exampleTwice) \<noteq> mset (fileRelationships exampleAnalyzed)"
    by metis
  then show ?thesis using ex_rel ex_rel2 by blast
qed

subsection \<open>The dependency graph query\<close>

text \<open>
  Claim C9. \<open>getServiceDependencyGraph\<close> leaves the analyzer as it was. Its edges are the
  relationships of the collection, in order, with a source or a target whose service
  name is the queried one, each as base names and type; its nodes are the base names
  of the endpoints of these relationships, each once; when no relationship qualifies
  both are empty.
\<close>

theorem getServiceDependencyGraph_correct:
  "snd (getServiceDependencyGraph st service) = st
   \<and> edges (fst (getServiceDependencyGraph st service)) =
       map toGraphEdge (filter (touchesService service) (fileRelationships st))
   \<and> set (nodes (fst (getServiceDependencyGraph st service))) =
       (\<Union>rel \<in> {r \<in> set (fileRelationships st). touchesService service r}.
          {basename (sourceFile rel), basename (targetFile rel)})
   \<and> distinct (nodes (fst (getServiceDependencyGraph st service)))
   \<and> ((\<forall>rel \<in> set (fileRelationships st). \<not> touchesService service rel) \<longrightarrow>
        fst (getServiceDependencyGraph st service) = \<lparr>nodes = [], edges = []\<rparr>)"
proof -
  let ?g = "foldl (graphStep service) \<lparr>nodes = [], edges = []\<rparr> (fileRelationships st)"
  have e: "edges ?g = map toGraphEdge (filter (touchesService service) (fileRelationships st))"
    by (simp add: graphStep_edges)
  have n: "set (nodes ?g) = (\<Union>rel \<in> {r \<in> set (fileRelationships st). touchesService service r}.
          {basename (sourceFile rel), basename (targetFile rel)})"
    by (simp add: graphStep_nodes)
  have d: "distinct (nodes ?g)" by (simp add: graphStep_distinct)
  have z: "?g = \<lparr>nodes = [], edges = []\<rparr>"
    if "\<forall>rel \<in> set (fileRelationships st). \<not> touchesService service rel"
  proof -
    have "filter (touchesService service) (fileRelationships st) = []"
      using that by (simp add: filter_empty_conv)
    then have "edges ?g = []" using e by simp
    moreover have "set (nodes ?g) = {}" unfolding n using that by auto
    then have "nodes ?g = []" by simp
    ultimately show ?thesis by (cases ?g) simp
  qed
  show ?thesis
    unfolding getServiceDependencyGraph_def fst_conv snd_conv
    using e n d z by blast
qed

theorem getServiceDependencyGraph_correct_witness:
  "filter (touchesService ''Billing'') (fileRelationships exampleAnalyzed) = []
   \<and> fst (getServiceDependencyGraph exampleAnalyzed ''Billing'') = \<lparr>nodes = [], edges = []\<rparr>
   \<and> snd (getServiceDependencyGraph exampleAnalyzed ''Order'') = exampleAnalyzed
   \<and> edges (fst (getServiceDependencyGraph exampleAnalyzed ''Order'')) =
       [\<lparr>edgeFrom = ''UserController.java'', edgeTo = ''OrderService.java'', edgeType = Extends\<rparr>]"
proof -
  have h: "filter (touchesService ''Billing'') (fileRelationships exampleAnalyzed) = []"
    by (simp add: exampleAnalyzed_def touchesService_def importEdge_def extendsEdge_def ex_services)
  then have q: "\<forall>rel \<in> set (fileRelationships exampleAnalyzed). \<not> touchesService ''Billing'' rel"
    unfolding filter_empty_conv by blast
  have e: "map toGraphEdge (filter (touchesService ''Order'') (fileRelationships exampleAnalyzed)) =
      [\<lparr>edgeFrom = ''UserController.java'', edgeTo = ''OrderService.java'', edgeType = Extends\<rparr>]"
  proof -
    have "basename ''/p/UserController.java'' = ''UserController.java''"
      "basename ''/p/OrderService.java'' = ''OrderService.java''" by code_simp+
    then show ?thesis
      by (simp add: exampleAnalyzed_def touchesService_def importEdge_def extendsEdge_def
          ex_services toGraphEdge_def)
  qed
  from getServiceDependencyGraph_correct [of exampleAnalyzed "''Billing''"] q
  have a: "fst (getServiceDependencyGraph exampleAnalyzed ''Billing'') = \<lparr>nodes = [], edges = []\<rparr>"
    by blast
  from getServiceDependencyGraph_correct [of exampleAnalyzed "''Order''"] e
  have b: "snd (getServiceDependencyGraph exampleAnalyzed ''Order'') = exampleAnalyzed"
    "edges (fst (getServiceDependencyGraph exampleAnalyzed ''Order'')) =
       [\<lparr>edgeFrom = ''UserController.java'', edgeTo = ''OrderService.java'', edgeType = Extends\<rparr>]"
    by simp_all
  show ?thesis using h a b by blast
qed

subsection \<open>Coverage of the relationships\<close>

text \<open>
  Claim C10. When the source of every stored relationship is a key of the module table
  before a run (as on a fresh analyzer), it is so after the run, and every stored
  relationship is in at least one of the returned contexts.
\<close>

theorem relationships_covered:
  assumes inv: "\<forall>rel \<in> set (fileRelationships st). sourceFile rel \<in> fst ` set (codeModules st)"
    and run: "analyzeDirectory env fuel st dir = Some (Inr (ctxs, st'))"
  shows "\<forall>rel \<in> set (fileRelationships st').
           sourceFile rel \<in> fst ` set (codeModules st')
         \<and> (\<exists>c \<in> set ctxs. rel \<in> set (relationships c))"
proof
  fix rel assume rel: "rel \<in> set (fileRelationships st')"
  from run obtain files where
    files: "findAllSupportedFiles env fuel dir = Some (Inr files)"
    and st2: "analyzeFileRelationships env (parseEach env files st) = Inr st'"
    and res: "ctxs = groupIntoServiceContexts st' dir"
    unfolding analyzeDirectory_def parseAllFiles_def extractCrossFileReferences_def Let_def
    by (auto split: option.splits sum.splits)
  let ?st1 = "parseEach env files st"
  have ap: "appended (edgeOfTable env ?st1) ?st1 st'"
    using st2 by (rule analyzeFileRelationships_appended)
  then obtain new where cm: "codeModules st' = codeModules ?st1"
    and new: "fileRelationships st' = fileRelationships st @ new"
    "\<forall>e \<in> set new. edgeOfTable env ?st1 e"
    unfolding appended_def parseEach_unchanged by blast
  have src: "sourceFile rel \<in> fst ` set (codeModules st')"
  proof (cases "rel \<in> set new")
    case True
    then have "edgeOfTable env ?st1 rel" using new(2) by blast
    then show ?thesis unfolding edgeOfTable_def edgeResolved_def cm by force
  next
    case False
    then have "rel \<in> set (fileRelationships st)" using rel new(1) by simp
    then show ?thesis using inv unfolding cm parseEach_keys by blast
  qed
  have "extractServiceName (sourceFile rel) \<in> serviceName ` set ctxs"
    using src groupFilesByService_names(2) [of st'] contexts_names [of st' dir]
    unfolding res by (metis image_eqI set_map)
  then obtain c where c: "c \<in> set ctxs" "serviceName c = extractServiceName (sourceFile rel)"
    by auto
  then have "rel \<in> set (relationships c)"
    using rel src unfolding res by (simp add: context_files)
  with src c(1) show "sourceFile rel \<in> fst ` set (codeModules st')
         \<and> (\<exists>c \<in> set ctxs. rel \<in> set (relationships c))" by blast
qed

theorem relationships_covered_witness:
  "fileRelationships newContextAnalyzer = []
   \<and> analyzeDirectory exampleEnv 3 newContextAnalyzer ''/p'' =
       Some (Inr ([orderContext, userContext], exampleAnalyzed))
   \<and> fileRelationships exampleAnalyzed = [importEdge, extendsEdge]
   \<and> sourceFile importEdge \<in> fst ` set (codeModules exampleAnalyzed)
   \<and> (importEdge \<in> set (relationships orderContext) \<or> importEdge \<in> set (relationships userContext))
   \<and> sourceFile extendsEdge \<in> fst ` set (codeModules exampleAnalyzed)
   \<and> (extendsEdge \<in> set (relationships orderContext) \<or> extendsEdge \<in> set (relationships userContext))"
proof -
  have z: "fileRelationships newContextAnalyzer = []" by (simp add: newContextAnalyzer_def)
  then have h: "\<forall>rel \<in> set (fileRelationships newContextAnalyzer).
       sourceFile rel \<in> fst ` set (codeModules newContextAnalyzer)"
    by simp
  have r: "fileRelationships exampleAnalyzed = [importEdge, extendsEdge]"
    by (simp add: exampleAnalyzed_def)
  have c: "\<forall>rel \<in> set [importEdge, extendsEdge].
           sourceFile rel \<in> fst ` set (codeModules exampleAnalyzed)
         \<and> (\<exists>c \<in> set [orderContext, userContext]. rel \<in> set (relationships c))"
    using relationships_covered [OF h ex_run] unfolding r .
  have a: "sourceFile importEdge \<in> fst ` set (codeModules exampleAnalyzed)"
    "importEdge \<in> set (relationships orderContext) \<or> importEdge \<in> set (relationships userContext)"
    "sourceFile extendsEdge \<in> fst ` set (codeModules exampleAnalyzed)"
    "extendsEdge \<in> set (relationships orderContext) \<or> extendsEdge \<in> set (relationships userContext)"
    using c by simp_all
  show ?thesis using z ex_run r a by blast
qed

end
